theory Spec2Isabelle
  imports Main "HOL-Library.Word"
begin

unbundle bit_operations_syntax

section \<open>Values, errors and outcomes\<close>

text \<open>
  A Node \<open>Buffer\<close> is a list of bytes. JavaScript numbers are restricted to the integers
  (LSNs, counts and byte offsets); the 32-bit fields of the index file are the only places
  where a number is cut to a machine width, and the cut is written out in
  \<open>writeInt32BE\<close> and \<open>readInt32BE\<close>.

  An operation either completes with a value (\<open>Inr\<close>) or fails (\<open>Inl\<close>). A failure is a
  synchronous throw or a rejected promise; both end the promise chain they occur in.
\<close>

type_synonym byte = "8 word"
type_synonym buffer = "byte list"

datatype error =
    AssertionError string
  | Error string
  | FileError string

datatype jsvalue =
    Undefined
  | Str string
  | Buffer buffer

definition bindE :: "error + 'a \<Rightarrow> ('a \<Rightarrow> error + 'b) \<Rightarrow> error + 'b" where
  "bindE r f = (case r of Inl e \<Rightarrow> Inl e | Inr x \<Rightarrow> f x)"

definition assert_ok :: "bool \<Rightarrow> string \<Rightarrow> error + unit" where
  "assert_ok c msg = (if c then Inr () else Inl (AssertionError msg))"

text \<open>Template literals print an integer in decimal.\<close>

definition digit_char :: "nat \<Rightarrow> char" where
  "digit_char d = ''0123456789'' ! (d mod 10)"

fun string_of_nat :: "nat \<Rightarrow> string" where
  "string_of_nat n =
     (if n < 10 then [digit_char n] else string_of_nat (n div 10) @ [digit_char (n mod 10)])"

declare string_of_nat.simps [simp del]

definition string_of_int :: "int \<Rightarrow> string" where
  "string_of_int i =
     (if i < 0 then CHR ''-'' # string_of_nat (nat (- i)) else string_of_nat (nat i))"

section \<open>Buffer primitives\<close>

definition allocFill :: "nat \<Rightarrow> buffer" where
  "allocFill len = replicate len 0"

text \<open>Reading an index outside a buffer gives \<open>undefined\<close>, which the bit operators take as 0.\<close>

definition byteAt :: "buffer \<Rightarrow> nat \<Rightarrow> byte" where
  "byteAt buf i = (if i < length buf then buf ! i else 0)"

text \<open>
  \<open>buf.readInt32BE(offset, noAssert)\<close>:
  \<open>(buf[offset] << 24) | (buf[offset + 1] << 16) | (buf[offset + 2] << 8) | buf[offset + 3]\<close>,
  a signed 32-bit value.
\<close>

definition readInt32BE :: "buffer \<Rightarrow> nat \<Rightarrow> int" where
  "readInt32BE buf offset =
     signed_take_bit 31
       (push_bit 24 (uint (byteAt buf offset))
        OR push_bit 16 (uint (byteAt buf (offset + 1)))
        OR push_bit 8 (uint (byteAt buf (offset + 2)))
        OR uint (byteAt buf (offset + 3)))"

text \<open>
  \<open>buf.writeInt32BE(value, offset, noAssert)\<close> stores \<open>value >>> 24\<close>, \<open>value >>> 16\<close>,
  \<open>value >>> 8\<close> and \<open>value\<close>, each cut to a byte; a store outside the buffer is dropped.
\<close>

definition writeInt32BE :: "int \<Rightarrow> nat \<Rightarrow> buffer \<Rightarrow> buffer" where
  "writeInt32BE v offset buf =
     buf[offset := word_of_int (drop_bit 24 v),
         offset + 1 := word_of_int (drop_bit 16 v),
         offset + 2 := word_of_int (drop_bit 8 v),
         offset + 3 := word_of_int v]"

text \<open>\<open>buf.write(string, 'ascii')\<close> stores the character codes from offset 0 on.\<close>

fun write_ascii_at :: "string \<Rightarrow> nat \<Rightarrow> buffer \<Rightarrow> buffer" where
  "write_ascii_at [] i buf = buf"
| "write_ascii_at (c # cs) i buf = write_ascii_at cs (Suc i) (buf[i := of_char c])"

definition write_ascii :: "string \<Rightarrow> buffer \<Rightarrow> buffer" where
  "write_ascii str buf = write_ascii_at str 0 buf"

text \<open>\<open>buf.toString('ascii', start, end)\<close> keeps the low seven bits of each byte.\<close>

definition toString_ascii :: "buffer \<Rightarrow> nat \<Rightarrow> nat \<Rightarrow> string" where
  "toString_ascii buf start end =
     map (\<lambda>b. char_of (take_bit 7 (unat b))) (take (end - start) (drop start buf))"

section \<open>The random-access file\<close>

text \<open>
  Modelled from the spec: the random-access file (package \<open>ranfile\<close>) is an external
  dependency whose code is not part of the sources. Following section 4.A of the
  specification and the way the sources call it, a file is its byte content;
  \<open>read(offset, length)\<close> resolves with the bytes in that range (fewer at the end of the
  file), \<open>write(offset, data[, first, length])\<close> stores the bytes at \<open>offset\<close>, extends the
  file when they reach past its end and resolves with the offset after the last byte
  written, and \<open>truncate(size)\<close> resolves with the new size. A negative offset or length
  fails. \<open>write\<close> rejects data that is not a buffer with the assertion the tests of the
  sources expect, and it rejects a write of no bytes, as the payload of an entry must be a
  non-empty buffer (sections 3 and 4.C); the wording of that failure is not fixed by the
  specification. A write that fails leaves the file as it was.
\<close>

type_synonym ranfile = buffer

definition ra_size :: "ranfile \<Rightarrow> int" where
  "ra_size f = int (length f)"

definition ra_read :: "ranfile \<Rightarrow> int \<Rightarrow> int \<Rightarrow> error + buffer" where
  "ra_read f ofs len =
     (if ofs < 0 \<or> len < 0 then Inl (FileError ''offset and length must not be negative'')
      else Inr (take (nat len) (drop (nat ofs) f)))"

definition overwrite :: "buffer \<Rightarrow> nat \<Rightarrow> buffer \<Rightarrow> buffer" where
  "overwrite f pos src =
     take pos f @ replicate (pos - length f) 0 @ src @ drop (pos + length src) f"

definition ra_write_bytes :: "ranfile \<Rightarrow> int \<Rightarrow> buffer \<Rightarrow> (error + int) \<times> ranfile" where
  "ra_write_bytes f ofs src =
     (if ofs < 0 then (Inl (FileError ''offset must not be negative''), f)
      else if src = [] then (Inl (FileError ''data must not be empty''), f)
      else (Inr (ofs + int (length src)), overwrite f (nat ofs) src))"

definition ra_write :: "ranfile \<Rightarrow> int \<Rightarrow> jsvalue \<Rightarrow> (error + int) \<times> ranfile" where
  "ra_write f ofs data =
     (case data of
        Buffer b \<Rightarrow> ra_write_bytes f ofs b
      | _ \<Rightarrow> (Inl (AssertionError ''data (Buffer) is required''), f))"

definition ra_write_part ::
  "ranfile \<Rightarrow> int \<Rightarrow> buffer \<Rightarrow> nat \<Rightarrow> nat \<Rightarrow> (error + int) \<times> ranfile" where
  "ra_write_part f ofs b first len = ra_write_bytes f ofs (take len (drop first b))"

definition ra_truncate :: "ranfile \<Rightarrow> int \<Rightarrow> (error + int) \<times> ranfile" where
  "ra_truncate f n =
     (if n < 0 then (Inl (FileError ''size must not be negative''), f)
      else (Inr n, take (nat n) f @ replicate (nat n - length f) 0))"

definition ra_create :: ranfile where
  "ra_create = []"

section \<open>The index file (log-index-file.js)\<close>

definition MARKER :: string where "MARKER = ''IDX$''"
definition OFS_MARKER :: nat where "OFS_MARKER = 0"
definition OFS_BASEINDEX :: nat where "OFS_BASEINDEX = 4"
definition OFS_HEAD :: nat where "OFS_HEAD = 8"
definition OFS_COMMIT :: nat where "OFS_COMMIT = 12"
definition HLEN :: nat where "HLEN = 16"
definition SIZEOF_INT :: nat where "SIZEOF_INT = 4"
definition DEF_COMMIT :: int where "DEF_COMMIT = - 1"

lemmas consts_defs =
  MARKER_def OFS_MARKER_def OFS_BASEINDEX_def OFS_HEAD_def OFS_COMMIT_def HLEN_def
  SIZEOF_INT_def DEF_COMMIT_def

record LogIndexFile =
  ifile :: ranfile
  header :: "buffer option"

record rec =
  rec_offset :: int
  rec_length :: int

record irec = rec +
  rec_index :: int

definition LogIndexFile_new :: "ranfile \<Rightarrow> error + LogIndexFile" where
  "LogIndexFile_new f =
     (if ra_size f < int HLEN then Inl (Error ''File too small to be an index file.'')
      else Inr \<lparr>ifile = f, header = None\<rparr>)"

definition idx_marker :: "LogIndexFile \<Rightarrow> error + string" where
  "idx_marker idx =
     (case header idx of
        None \<Rightarrow> Inl (AssertionError ''index must be open'')
      | Some h \<Rightarrow> Inr (toString_ascii h OFS_MARKER OFS_BASEINDEX))"

definition idx_baseIndex :: "LogIndexFile \<Rightarrow> error + int" where
  "idx_baseIndex idx =
     (case header idx of
        None \<Rightarrow> Inl (AssertionError ''index must be open'')
      | Some h \<Rightarrow> Inr (readInt32BE h OFS_BASEINDEX))"

definition idx_head :: "LogIndexFile \<Rightarrow> error + int" where
  "idx_head idx =
     (case header idx of
        None \<Rightarrow> Inl (AssertionError ''index must be open'')
      | Some h \<Rightarrow> Inr (readInt32BE h OFS_HEAD))"

definition idx_commitHead :: "LogIndexFile \<Rightarrow> error + int" where
  "idx_commitHead idx =
     (case header idx of
        None \<Rightarrow> Inl (AssertionError ''index must be open'')
      | Some h \<Rightarrow> Inr (readInt32BE h OFS_COMMIT))"

definition idx_isCommitted :: "LogIndexFile \<Rightarrow> int \<Rightarrow> error + bool" where
  "idx_isCommitted idx index =
     bindE (assert_ok (header idx \<noteq> None) ''index must be open'') (\<lambda>_.
     bindE (idx_commitHead idx) (\<lambda>c.
     Inr (index < c)))"

definition idx_commit :: "LogIndexFile \<Rightarrow> int \<Rightarrow> (error + int) \<times> LogIndexFile" where
  "idx_commit idx index =
     (case header idx of
        None \<Rightarrow> (Inl (AssertionError ''index must be open''), idx)
      | Some h \<Rightarrow>
          let expected = readInt32BE h OFS_COMMIT + 1 in
          if index < expected then (Inr index, idx)
          else if index \<noteq> expected then
            (Inl (Error (''Out of order commit; expected '' @ string_of_int expected
                          @ '' but received '' @ string_of_int index @ ''.'')), idx)
          else
            let h' = writeInt32BE index OFS_COMMIT h in
            (case ra_write_part (ifile idx) (int OFS_COMMIT) h' OFS_COMMIT SIZEOF_INT of
               (Inl e, f') \<Rightarrow> (Inl e, \<lparr>ifile = f', header = Some h'\<rparr>)
             | (Inr _, f') \<Rightarrow> (Inr index, \<lparr>ifile = f', header = Some h'\<rparr>)))"

definition localizeIndex :: "LogIndexFile \<Rightarrow> int \<Rightarrow> error + int" where
  "localizeIndex idx index = bindE (idx_baseIndex idx) (\<lambda>b. Inr (index - b))"

definition globalizeIndex :: "LogIndexFile \<Rightarrow> int \<Rightarrow> error + int" where
  "globalizeIndex idx index = bindE (idx_baseIndex idx) (\<lambda>b. Inr (index + b))"

definition idx_offset :: "LogIndexFile \<Rightarrow> int \<Rightarrow> error + int" where
  "idx_offset idx index =
     bindE (idx_head idx) (\<lambda>head.
     bindE (assert_ok (index \<le> head) ''index out of range'') (\<lambda>_.
     bindE (assert_ok (header idx \<noteq> None) ''index must be open'') (\<lambda>_.
     bindE (localizeIndex idx index) (\<lambda>li.
     bindE (ra_read (ifile idx) (int HLEN + li * int SIZEOF_INT) (int SIZEOF_INT)) (\<lambda>data.
     Inr (readInt32BE data 0))))))"

definition idx_get :: "LogIndexFile \<Rightarrow> int \<Rightarrow> error + rec" where
  "idx_get idx index =
     bindE (idx_head idx) (\<lambda>head.
     bindE (assert_ok (index < head) ''index out of range'') (\<lambda>_.
     bindE (assert_ok (header idx \<noteq> None) ''index must be open'') (\<lambda>_.
     bindE (localizeIndex idx index) (\<lambda>li.
     bindE (ra_read (ifile idx) (int HLEN + li * int SIZEOF_INT) (2 * int SIZEOF_INT)) (\<lambda>data.
     let offset = readInt32BE data 0 in
     Inr \<lparr>rec_offset = offset, rec_length = readInt32BE data SIZEOF_INT - offset\<rparr>)))))"

text \<open>The loop \<open>while (++i < count)\<close> of \<open>getRange\<close>, with \<open>i\<close> already incremented.\<close>

function getRange_loop :: "buffer \<Rightarrow> int \<Rightarrow> int \<Rightarrow> nat \<Rightarrow> irec list \<Rightarrow> irec list" where
  "getRange_loop data index count i result =
     (if int i < count then
        let offset = readInt32BE data (i * SIZEOF_INT) in
        getRange_loop data index count (Suc i)
          (result @ [\<lparr>rec_offset = offset,
                      rec_length = readInt32BE data ((i + 1) * SIZEOF_INT) - offset,
                      rec_index = index + int i\<rparr>])
      else result)"
  by pat_completeness auto
termination
  by (relation "measure (\<lambda>(data, index, count, i, result). nat (count - int i))") auto

declare getRange_loop.simps [simp del]

definition idx_getRange :: "LogIndexFile \<Rightarrow> int \<Rightarrow> int \<Rightarrow> error + irec list" where
  "idx_getRange idx index count =
     bindE (idx_head idx) (\<lambda>head.
     bindE (assert_ok (index < head) ''index out of range'') (\<lambda>_.
     bindE (assert_ok (header idx \<noteq> None) ''index must be open'') (\<lambda>_.
     let limit = head - index in
     bindE (assert_ok (count \<le> limit) ''count puts index out of range'') (\<lambda>_.
     bindE (localizeIndex idx index) (\<lambda>li.
     bindE (ra_read (ifile idx) (int HLEN + li * int SIZEOF_INT)
              ((count + 1) * int SIZEOF_INT)) (\<lambda>data.
     Inr (getRange_loop data index count 0 [])))))))"

definition idx_truncate :: "LogIndexFile \<Rightarrow> int \<Rightarrow> (error + int) \<times> LogIndexFile" where
  "idx_truncate idx from =
     (case idx_commitHead idx of
        Inl e \<Rightarrow> (Inl e, idx)
      | Inr c \<Rightarrow>
          if \<not> from > c then
            (Inl (AssertionError ''cannot truncate a committed log entry''), idx)
          else
            (case (idx_head idx, header idx) of
               (Inr head, Some h) \<Rightarrow>
                 if \<not> from < head then (Inl (AssertionError ''index out of range''), idx)
                 else
                   let h' = writeInt32BE from OFS_HEAD h in
                   (case ra_write_part (ifile idx) (int OFS_HEAD) h' OFS_HEAD SIZEOF_INT of
                      (Inl e, f') \<Rightarrow> (Inl e, \<lparr>ifile = f', header = Some h'\<rparr>)
                    | (Inr _, f') \<Rightarrow>
                        let idx' = \<lparr>ifile = f', header = Some h'\<rparr> in
                        (bindE (idx_head idx') (\<lambda>head'.
                         bindE (idx_baseIndex idx') (\<lambda>b'.
                         bindE (if head' = b' then
                                  bindE (ra_read f' (int HLEN) (int SIZEOF_INT)) (\<lambda>data.
                                  Inr \<lparr>rec_offset = readInt32BE data 0, rec_length = 0\<rparr>)
                                else idx_get idx' (head' - 1)) (\<lambda>r.
                         Inr (rec_offset r + rec_length r)))), idx'))
             | (Inl e, _) \<Rightarrow> (Inl e, idx)
             | (_, None) \<Rightarrow> (Inl (AssertionError ''index must be open''), idx)))"

definition idx_increment :: "LogIndexFile \<Rightarrow> int \<Rightarrow> (error + int) \<times> LogIndexFile" where
  "idx_increment idx offset =
     (case header idx of
        None \<Rightarrow> (Inl (AssertionError ''index must be open''), idx)
      | Some h \<Rightarrow>
          let current = readInt32BE h OFS_HEAD;
              next = current + 1;
              ofs = int HLEN + (next - readInt32BE h OFS_BASEINDEX) * int SIZEOF_INT;
              data = writeInt32BE offset 0 (allocFill SIZEOF_INT)
          in
          (case ra_write (ifile idx) ofs (Buffer data) of
             (Inl e, f') \<Rightarrow> (Inl e, \<lparr>ifile = f', header = Some h\<rparr>)
           | (Inr _, f') \<Rightarrow>
               let h' = writeInt32BE next OFS_HEAD h in
               (case ra_write_part f' (int OFS_HEAD) h' OFS_HEAD SIZEOF_INT of
                  (Inl e, f'') \<Rightarrow> (Inl e, \<lparr>ifile = f'', header = Some h'\<rparr>)
                | (Inr _, f'') \<Rightarrow> (Inr current, \<lparr>ifile = f'', header = Some h'\<rparr>))))"

definition idx_open :: "LogIndexFile \<Rightarrow> error + LogIndexFile" where
  "idx_open idx =
     bindE (assert_ok (header idx = None) ''index already open'') (\<lambda>_.
     bindE (ra_read (ifile idx) (int OFS_MARKER) (int HLEN)) (\<lambda>data.
     let marker = toString_ascii data OFS_MARKER OFS_BASEINDEX in
     if marker \<noteq> MARKER then
       Inl (Error (''Invalid index file; expected file marker to be '' @ MARKER
                    @ '' but found '' @ marker @ ''.''))
     else Inr (idx\<lparr>header := Some data\<rparr>)))"

definition idx_close :: "LogIndexFile \<Rightarrow> (error + unit) \<times> LogIndexFile" where
  "idx_close idx = (Inr (), idx\<lparr>header := None\<rparr>)"

definition LogIndexFile_open :: "ranfile \<Rightarrow> error + LogIndexFile" where
  "LogIndexFile_open f = bindE (LogIndexFile_new f) idx_open"

definition LogIndexFile_create :: "int option \<Rightarrow> int option \<Rightarrow> error + LogIndexFile" where
  "LogIndexFile_create baseIndex byteOffset =
     (let b = (case baseIndex of None \<Rightarrow> 0 | Some v \<Rightarrow> v);
          bo = (case byteOffset of None \<Rightarrow> 0 | Some v \<Rightarrow> v);
          data = writeInt32BE bo HLEN
                   (writeInt32BE DEF_COMMIT OFS_COMMIT
                     (writeInt32BE b OFS_HEAD
                       (writeInt32BE b OFS_BASEINDEX
                         (write_ascii MARKER (allocFill (HLEN + SIZEOF_INT))))))
      in
      (case ra_write ra_create (int OFS_MARKER) (Buffer data) of
         (Inl e, f) \<Rightarrow> Inl e
       | (Inr _, f) \<Rightarrow> bindE (LogIndexFile_new f) idx_open))"

section \<open>The write-ahead log (write-ahead-log.js)\<close>

record WriteAheadLog =
  wfile :: ranfile
  windex :: LogIndexFile

definition wal_size :: "WriteAheadLog \<Rightarrow> int" where
  "wal_size s = ra_size (wfile s)"

definition wal_next :: "WriteAheadLog \<Rightarrow> error + int" where
  "wal_next s = idx_head (windex s)"

definition wal_commitHead :: "WriteAheadLog \<Rightarrow> error + int" where
  "wal_commitHead s = idx_commitHead (windex s)"

definition wal_isCommitted :: "WriteAheadLog \<Rightarrow> int \<Rightarrow> error + bool" where
  "wal_isCommitted s index = idx_isCommitted (windex s) index"

definition wal_commit :: "WriteAheadLog \<Rightarrow> int \<Rightarrow> (error + int) \<times> WriteAheadLog" where
  "wal_commit s index =
     (case idx_commit (windex s) index of (r, idx') \<Rightarrow> (r, s\<lparr>windex := idx'\<rparr>))"

definition wal_write :: "WriteAheadLog \<Rightarrow> jsvalue \<Rightarrow> (error + int) \<times> WriteAheadLog" where
  "wal_write s data =
     (case idx_head (windex s) of
        Inl e \<Rightarrow> (Inl e, s)
      | Inr head \<Rightarrow>
          (case idx_offset (windex s) head of
             Inl e \<Rightarrow> (Inl e, s)
           | Inr firstByte \<Rightarrow>
               (case ra_write (wfile s) firstByte data of
                  (Inl e, log') \<Rightarrow> (Inl e, s\<lparr>wfile := log'\<rparr>)
                | (Inr subsequentByte, log') \<Rightarrow>
                    (case idx_increment (windex s) subsequentByte of
                       (r, idx') \<Rightarrow> (r, \<lparr>wfile = log', windex = idx'\<rparr>)))))"

definition wal_read :: "WriteAheadLog \<Rightarrow> int \<Rightarrow> error + buffer" where
  "wal_read s index =
     bindE (idx_get (windex s) index) (\<lambda>r.
     ra_read (wfile s) (rec_offset r) (rec_length r))"

definition wal_truncate :: "WriteAheadLog \<Rightarrow> int \<Rightarrow> (error + int) \<times> WriteAheadLog" where
  "wal_truncate s from =
     (case idx_truncate (windex s) from of
        (Inl e, idx') \<Rightarrow> (Inl e, s\<lparr>windex := idx'\<rparr>)
      | (Inr next, idx') \<Rightarrow>
          (case ra_truncate (wfile s) next of
             (r, log') \<Rightarrow> (r, \<lparr>wfile = log', windex = idx'\<rparr>)))"

text \<open>
  \<open>recover\<close>. The handler is a function of the LSN and the entry; its verdict is the
  truthiness of what it returns or of what the promise it returns resolves with. The
  third component of the result lists the handler's calls in the order they were made.
\<close>

datatype handler_arg =
    HFalse
  | HFunction "int \<Rightarrow> buffer \<Rightarrow> bool"
  | HOther

definition truncAfterCommitHead :: "WriteAheadLog \<Rightarrow> (error + unit) \<times> WriteAheadLog" where
  "truncAfterCommitHead s =
     (case wal_commitHead s of
        Inl e \<Rightarrow> (Inl e, s)
      | Inr c \<Rightarrow>
          (case wal_truncate s (c + 1) of
             (Inl e, s') \<Rightarrow> (Inl e, s')
           | (Inr _, s') \<Rightarrow> (Inr (), s')))"

lemma idx_commit_value: "idx_commit idx index = (Inr c, idx') \<Longrightarrow> c = index"
  by (auto simp: idx_commit_def Let_def split: option.splits if_splits prod.splits sum.splits)

lemma wal_commit_value: "wal_commit s index = (Inr c, s') \<Longrightarrow> c = index"
  by (auto simp: wal_commit_def split: prod.splits dest: idx_commit_value)

function possiblyRecover ::
  "(int \<Rightarrow> buffer \<Rightarrow> bool) \<Rightarrow> int \<Rightarrow> WriteAheadLog \<Rightarrow> int
     \<Rightarrow> (error + unit) \<times> WriteAheadLog \<times> (int \<times> buffer) list" where
  "possiblyRecover handler head s index =
     (case wal_read s index of
        Inl e \<Rightarrow> (Inl e, s, [])
      | Inr data \<Rightarrow>
          if handler index data then
            (case wal_commit s index of
               (Inl e, s') \<Rightarrow> (Inl e, s', [(index, data)])
             | (Inr committed, s') \<Rightarrow>
                 if committed + 1 < head then
                   (case possiblyRecover handler head s' (committed + 1) of
                      (r, s'', calls) \<Rightarrow> (r, s'', (index, data) # calls))
                 else
                   (case truncAfterCommitHead s' of
                      (r, s'') \<Rightarrow> (r, s'', [(index, data)])))
          else
            (case truncAfterCommitHead s of
               (r, s') \<Rightarrow> (r, s', [(index, data)])))"
  by pat_completeness auto
termination
proof (relation "measure (\<lambda>(handler, head, s, index). nat (head - index))")
  show "wf (measure (\<lambda>(handler, head, s, index). nat (head - index)))"
    by simp
next
  fix handler :: "int \<Rightarrow> buffer \<Rightarrow> bool" and head :: int and s :: WriteAheadLog
    and index :: int and data x s' committed
  assume "(x, s') = wal_commit s index" and "x = Inr committed" and "committed + 1 < head"
  then have "committed = index"
    using wal_commit_value [of s index committed s'] by simp
  with \<open>committed + 1 < head\<close>
  show "((handler, head, s', committed + 1), (handler, head, s, index))
          \<in> measure (\<lambda>(handler, head, s, index). nat (head - index))"
    by simp
qed

declare possiblyRecover.simps [simp del]

definition wal_recover ::
  "WriteAheadLog \<Rightarrow> handler_arg
     \<Rightarrow> (error + unit) \<times> WriteAheadLog \<times> (int \<times> buffer) list" where
  "wal_recover s h =
     (case (case h of
              HFalse \<Rightarrow> Some (\<lambda>_ _. False)
            | HFunction f \<Rightarrow> Some f
            | HOther \<Rightarrow> None) of
        None \<Rightarrow> (Inl (AssertionError ''handler (function) is required''), s, [])
      | Some handler \<Rightarrow>
          (case wal_next s of
             Inl e \<Rightarrow> (Inl e, s, [])
           | Inr head \<Rightarrow>
               (case wal_commitHead s of
                  Inl e \<Rightarrow> (Inl e, s, [])
                | Inr committed \<Rightarrow>
                    if committed + 1 < head then possiblyRecover handler head s (committed + 1)
                    else (Inr (), s, []))))"

definition wal_close :: "WriteAheadLog \<Rightarrow> (error + unit) \<times> WriteAheadLog" where
  "wal_close s =
     (case idx_close (windex s) of (r, idx') \<Rightarrow> (r, s\<lparr>windex := idx'\<rparr>))"

definition wal_create :: "error + WriteAheadLog" where
  "wal_create =
     bindE (LogIndexFile_create (Some 0) None) (\<lambda>idx.
     Inr \<lparr>wfile = ra_create, windex = idx\<rparr>)"

section \<open>The queue (queue.js)\<close>

text \<open>
  The queue holds JavaScript values; \<open>dequeue\<close> and \<open>peek\<close> give \<open>undefined\<close> on an empty
  queue. The offset never exceeds the length of the array, so the length is the natural
  number \<open>queue.length - offset\<close>.
\<close>


record Queue =
  queue :: "jsvalue list"
  qoffset :: nat


definition q_length :: "Queue \<Rightarrow> nat" where
  "q_length q = length (queue q) - qoffset q"




definition peek :: "Queue \<Rightarrow> jsvalue" where
  "peek q =
     (if q_length q > 0 \<and> qoffset q < length (queue q) then queue q ! qoffset q else Undefined)"

section \<open>readRange and its stream\<close>














section \<open>Notions used to state the properties\<close>

text \<open>The value a number has after it went through a signed 32-bit field.\<close>

definition wrap32 :: "int \<Rightarrow> int" where
  "wrap32 v = signed_take_bit 31 v"

text \<open>The three header fields, and the slot of an LSN in the index file.\<close>

definition h_base :: "buffer \<Rightarrow> int" where "h_base h = readInt32BE h OFS_BASEINDEX"
definition h_head :: "buffer \<Rightarrow> int" where "h_head h = readInt32BE h OFS_HEAD"
definition h_commit :: "buffer \<Rightarrow> int" where "h_commit h = readInt32BE h OFS_COMMIT"

definition slot_pos :: "int \<Rightarrow> int \<Rightarrow> nat" where
  "slot_pos base L = nat (int HLEN + (L - base) * int SIZEOF_INT)"

definition slot :: "ranfile \<Rightarrow> int \<Rightarrow> int \<Rightarrow> int" where
  "slot f base L = readInt32BE f (slot_pos base L)"

text \<open>
  A well-formed log: the index is open with a 16-byte header, the write head is not below
  the base, the commit head is not below \<open>base - 1\<close>, the index file holds the slots of the
  LSNs from the base to the write head, the first slot is 0, the slots do not decrease, and
  the slot at the write head is the size of the log file. \<open>WriteAheadLog.create\<close> returns
  such a log, and \<open>write\<close>, \<open>commit\<close> and \<open>truncate\<close> keep it so as long as the numbers
  stay within 32 bits.
\<close>

definition wal_ok :: "WriteAheadLog \<Rightarrow> bool" where
  "wal_ok s =
     (case header (windex s) of
        None \<Rightarrow> False
      | Some h \<Rightarrow>
          length h = HLEN
          \<and> h_base h \<le> h_head h
          \<and> h_base h - 1 \<le> h_commit h
          \<and> int HLEN + (h_head h - h_base h + 1) * int SIZEOF_INT
                \<le> int (length (ifile (windex s)))
          \<and> slot (ifile (windex s)) (h_base h) (h_base h) = 0
          \<and> (\<forall>k \<in> set [0 ..< nat (h_head h - h_base h)].
                slot (ifile (windex s)) (h_base h) (h_base h + int k)
                  \<le> slot (ifile (windex s)) (h_base h) (h_base h + int k + 1))
          \<and> slot (ifile (windex s)) (h_base h) (h_head h) = ra_size (wfile s))"

text \<open>The length the index reports for the entry at an LSN.\<close>

definition entry_length :: "WriteAheadLog \<Rightarrow> int \<Rightarrow> int" where
  "entry_length s L = (case idx_get (windex s) L of Inl e \<Rightarrow> 0 | Inr r \<Rightarrow> rec_length r)"




text \<open>
  A log that holds exactly the payloads \<open>ps\<close>, in this order, as the entries 0, 1, ...:
  it is well-formed with base 0, its write head is their number, its log file is their
  concatenation, and slot \<open>k\<close> is the total length of the first \<open>k\<close> of them.
\<close>

definition stored :: "WriteAheadLog \<Rightarrow> buffer list \<Rightarrow> bool" where
  "stored s ps =
     (wal_ok s
      \<and> (\<exists>h. header (windex s) = Some h \<and> h_base h = 0 \<and> h_head h = int (length ps)
             \<and> (\<forall>k \<le> length ps.
                   slot (ifile (windex s)) 0 (int k) = int (length (concat (take k ps)))))
      \<and> wfile s = concat ps)"





text \<open>
  Concrete logs: the log \<open>WriteAheadLog.create\<close> returns, and the log after writing four
  entries and committing the first two (scenarios S6 to S8 of the specification).
\<close>

definition fresh_wal :: WriteAheadLog where
  "fresh_wal =
     \<lparr>wfile = [],
      windex =
        \<lparr>ifile = [73, 68, 88, 36, 0, 0, 0, 0, 0, 0, 0, 0, 255, 255, 255, 255, 0, 0, 0, 0],
         header = Some [73, 68, 88, 36, 0, 0, 0, 0, 0, 0, 0, 0, 255, 255, 255, 255]\<rparr>\<rparr>"

definition sample_wal :: WriteAheadLog where
  "sample_wal =
     \<lparr>wfile = [1, 2, 3, 4, 5, 6, 7, 8, 9, 10],
      windex =
        \<lparr>ifile = [73, 68, 88, 36, 0, 0, 0, 0, 0, 0, 0, 4, 0, 0, 0, 1,
                  0, 0, 0, 0, 0, 0, 0, 3, 0, 0, 0, 5, 0, 0, 0, 6, 0, 0, 0, 10],
         header = Some [73, 68, 88, 36, 0, 0, 0, 0, 0, 0, 0, 4, 0, 0, 0, 1]\<rparr>\<rparr>"

text \<open>Sequentially chained writes: each starts when the one before has resolved.\<close>

fun write_all :: "WriteAheadLog \<Rightarrow> buffer list \<Rightarrow> (error + int list) \<times> WriteAheadLog" where
  "write_all s [] = (Inr [], s)"
| "write_all s (p # ps) =
     (case wal_write s (Buffer p) of
        (Inl e, s') \<Rightarrow> (Inl e, s')
      | (Inr lsn, s') \<Rightarrow>
          (case write_all s' ps of
             (Inl e, s'') \<Rightarrow> (Inl e, s'')
           | (Inr lsns, s'') \<Rightarrow> (Inr (lsn # lsns), s'')))"

text \<open>The log after three chained writes.\<close>

definition three_written :: WriteAheadLog where
  "three_written = snd (write_all fresh_wal [[1, 2, 3], [4, 5], [6]])"

text \<open>An index file whose commit head is the largest 32-bit value.\<close>

definition last_commit_wal :: WriteAheadLog where
  "last_commit_wal =
     \<lparr>wfile = [],
      windex =
        \<lparr>ifile = [73, 68, 88, 36, 0, 0, 0, 0, 0, 0, 0, 0, 127, 255, 255, 255, 0, 0, 0, 0],
         header = Some [73, 68, 88, 36, 0, 0, 0, 0, 0, 0, 0, 0, 127, 255, 255, 255]\<rparr>\<rparr>"

section \<open>Bytes, fields and files\<close>

lemma bindE_simps [simp]:
  "bindE (Inl e) f = Inl e" "bindE (Inr x) f = f x"
  by (simp_all add: bindE_def)

lemma assert_ok_simps [simp]:
  "assert_ok True m = Inr ()" "assert_ok False m = Inl (AssertionError m)"
  by (simp_all add: assert_ok_def)

lemma wrap32_id: "- 2147483648 \<le> v \<Longrightarrow> v < 2147483648 \<Longrightarrow> wrap32 v = v"
  unfolding wrap32_def by (simp add: signed_take_bit_int_eq_self)

lemma wrap32_range: "- 2147483648 \<le> wrap32 v \<and> wrap32 v < 2147483648"
  unfolding wrap32_def
  using signed_take_bit_int_greater_eq_minus_exp [of 31 v] signed_take_bit_int_less_exp [of 31 v]
  by simp

lemma bytes_of_int32:
  "push_bit 24 (uint (word_of_int (drop_bit 24 v) :: byte))
     OR push_bit 16 (uint (word_of_int (drop_bit 16 v) :: byte))
     OR push_bit 8 (uint (word_of_int (drop_bit 8 v) :: byte))
     OR uint (word_of_int v :: byte) = take_bit 32 v"
proof (rule bit_eqI)
  fix n :: nat
  consider "n < 8" | "8 \<le> n" "n < 16" | "16 \<le> n" "n < 24" | "24 \<le> n" "n < 32" | "32 \<le> n"
    by linarith
  then show "bit (push_bit 24 (uint (word_of_int (drop_bit 24 v) :: byte))
     OR push_bit 16 (uint (word_of_int (drop_bit 16 v) :: byte))
     OR push_bit 8 (uint (word_of_int (drop_bit 8 v) :: byte))
     OR uint (word_of_int v :: byte)) n = bit (take_bit 32 v) n"
    by cases (auto simp add: bit_simps uint_word_of_int_eq)
qed

lemma byteAt_take_drop:
  "byteAt (take n (drop p f)) i = (if i < n then byteAt f (p + i) else 0)"
  by (auto simp: byteAt_def)

lemma byteAt_update:
  "byteAt (buf[i := x]) j = (if j = i \<and> i < length buf then x else byteAt buf j)"
  by (auto simp: byteAt_def)

lemma byteAt_overwrite:
  "byteAt (overwrite f pos src) i =
     (if pos \<le> i \<and> i < pos + length src then src ! (i - pos) else byteAt f i)"
proof -
  have "min (length f) pos + (pos - length f) = pos"
    by simp
  then show ?thesis
    by (auto simp: byteAt_def overwrite_def nth_append)
qed

lemma length_overwrite [simp]:
  "length (overwrite f pos src) = max (length f) (pos + length src)"
  by (auto simp: overwrite_def)

lemma readInt32BE_cong:
  "(\<And>k. k < 4 \<Longrightarrow> byteAt a (i + k) = byteAt b (j + k)) \<Longrightarrow> readInt32BE a i = readInt32BE b j"
proof -
  assume h: "\<And>k. k < 4 \<Longrightarrow> byteAt a (i + k) = byteAt b (j + k)"
  have "byteAt a i = byteAt b j" using h [of 0] by simp
  moreover have "byteAt a (i + 1) = byteAt b (j + 1)" using h [of 1] by simp
  moreover have "byteAt a (i + 2) = byteAt b (j + 2)" using h [of 2] by simp
  moreover have "byteAt a (i + 3) = byteAt b (j + 3)" using h [of 3] by simp
  ultimately show ?thesis by (simp add: readInt32BE_def)
qed

lemma readInt32BE_range:
  "- 2147483648 \<le> readInt32BE buf i \<and> readInt32BE buf i < 2147483648"
  unfolding readInt32BE_def
  using wrap32_range [unfolded wrap32_def] by blast

lemma readInt32BE_take_drop:
  "k + 4 \<le> n \<Longrightarrow> readInt32BE (take n (drop p f)) k = readInt32BE f (p + k)"
  by (rule readInt32BE_cong) (simp add: byteAt_take_drop add.assoc)

lemma readInt32BE_overwrite_other:
  "q + 4 \<le> p \<or> p + length src \<le> q \<Longrightarrow> readInt32BE (overwrite f p src) q = readInt32BE f q"
  by (rule readInt32BE_cong) (auto simp add: byteAt_overwrite)

lemma readInt32BE_overwrite_same:
  "k + 4 \<le> length src \<Longrightarrow> readInt32BE (overwrite f p src) (p + k) = readInt32BE src k"
proof (rule readInt32BE_cong)
  fix j assume "k + 4 \<le> length src" and "j < (4::nat)"
  then have "p \<le> p + k + j \<and> p + k + j < p + length src" and "p + k + j - p = k + j"
    by auto
  then show "byteAt (overwrite f p src) (p + k + j) = byteAt src (k + j)"
    using \<open>k + 4 \<le> length src\<close> \<open>j < 4\<close> by (subst byteAt_overwrite) (simp add: byteAt_def)
qed

lemma length_writeInt32BE [simp]: "length (writeInt32BE v k buf) = length buf"
  by (simp add: writeInt32BE_def)

lemma readInt32BE_write_same:
  "k + 4 \<le> length buf \<Longrightarrow> readInt32BE (writeInt32BE v k buf) k = wrap32 v"
proof -
  assume "k + 4 \<le> length buf"
  then have "readInt32BE (writeInt32BE v k buf) k =
    signed_take_bit 31 (push_bit 24 (uint (word_of_int (drop_bit 24 v) :: byte))
     OR push_bit 16 (uint (word_of_int (drop_bit 16 v) :: byte))
     OR push_bit 8 (uint (word_of_int (drop_bit 8 v) :: byte))
     OR uint (word_of_int v :: byte))"
    by (simp add: readInt32BE_def writeInt32BE_def byteAt_update)
  also have "\<dots> = signed_take_bit 31 (take_bit 32 v)"
    by (simp only: bytes_of_int32)
  also have "\<dots> = wrap32 v"
    by (simp add: wrap32_def signed_take_bit_take_bit)
  finally show ?thesis .
qed

lemma readInt32BE_write_other:
  "j + 4 \<le> k \<or> k + 4 \<le> j \<Longrightarrow> readInt32BE (writeInt32BE v k buf) j = readInt32BE buf j"
  by (rule readInt32BE_cong) (auto simp add: writeInt32BE_def byteAt_update)

lemma readInt32BE_enc: "readInt32BE (writeInt32BE v 0 (allocFill 4)) 0 = wrap32 v"
  by (simp add: readInt32BE_write_same allocFill_def)

lemma enc_bytes [simp]: "writeInt32BE v 0 (allocFill 4) \<noteq> []"
  by (simp add: writeInt32BE_def allocFill_def)

lemma length_enc [simp]: "length (writeInt32BE v 0 (allocFill 4)) = 4"
  by (simp add: allocFill_def)

lemma overwrite_at_end: "overwrite f (length f) src = f @ src"
  by (simp add: overwrite_def)

lemma idx_getters:
  "header idx = Some h \<Longrightarrow> idx_baseIndex idx = Inr (h_base h)"
  "header idx = Some h \<Longrightarrow> idx_head idx = Inr (h_head h)"
  "header idx = Some h \<Longrightarrow> idx_commitHead idx = Inr (h_commit h)"
  by (simp_all add: idx_baseIndex_def idx_head_def idx_commitHead_def h_base_def h_head_def h_commit_def)

lemma slot_pos_Suc: "base \<le> L \<Longrightarrow> slot_pos base (L + 1) = slot_pos base L + 4"
  by (simp add: slot_pos_def HLEN_def SIZEOF_INT_def nat_add_distrib)

lemma slot_pos_ge: "base \<le> L \<Longrightarrow> 16 \<le> slot_pos base L"
  by (simp add: slot_pos_def HLEN_def SIZEOF_INT_def)

lemma idx_offset_eq:
  assumes "header idx = Some h" and "L \<le> h_head h" and "h_base h \<le> L"
  shows "idx_offset idx L = Inr (slot (ifile idx) (h_base h) L)"
  using assms
  by (simp add: idx_offset_def idx_getters localizeIndex_def ra_read_def slot_def slot_pos_def
      HLEN_def SIZEOF_INT_def readInt32BE_take_drop)

lemma idx_get_eq:
  assumes "header idx = Some h" and "L < h_head h" and "h_base h \<le> L"
  shows "idx_get idx L = Inr \<lparr>rec_offset = slot (ifile idx) (h_base h) L,
           rec_length = slot (ifile idx) (h_base h) (L + 1) - slot (ifile idx) (h_base h) L\<rparr>"
proof -
  have "slot_pos (h_base h) (L + 1) = slot_pos (h_base h) L + 4"
    using assms(3) by (rule slot_pos_Suc)
  then show ?thesis
    using assms
    by (simp add: idx_get_def idx_getters localizeIndex_def ra_read_def slot_def
        readInt32BE_take_drop [where k = 0 and n = 8, simplified]
        readInt32BE_take_drop [where k = 4 and n = 8, simplified] SIZEOF_INT_def)
      (simp add: slot_pos_def HLEN_def SIZEOF_INT_def Let_def)
qed

lemma header_field_bytes:
  "k + 4 \<le> length h \<Longrightarrow> take 4 (drop k (writeInt32BE v j h)) \<noteq> []"
  by auto

lemma idx_commit_next:
  "header idx = Some h \<Longrightarrow> length h = HLEN \<Longrightarrow>
   idx_commit idx (h_commit h + 1) =
     (Inr (h_commit h + 1),
      \<lparr>ifile = overwrite (ifile idx) 12 (take 4 (drop 12 (writeInt32BE (h_commit h + 1) 12 h))),
       header = Some (writeInt32BE (h_commit h + 1) 12 h)\<rparr>)"
  by (simp add: idx_commit_def h_commit_def Let_def ra_write_part_def ra_write_bytes_def
      OFS_COMMIT_def SIZEOF_INT_def HLEN_def)

lemma idx_commit_old:
  "header idx = Some h \<Longrightarrow> L < h_commit h + 1 \<Longrightarrow> idx_commit idx L = (Inr L, idx)"
  by (simp add: idx_commit_def h_commit_def Let_def)

lemma idx_commit_later:
  "header idx = Some h \<Longrightarrow> L > h_commit h + 1 \<Longrightarrow>
   idx_commit idx L =
     (Inl (Error (''Out of order commit; expected '' @ string_of_int (h_commit h + 1)
                   @ '' but received '' @ string_of_int L @ ''.'')), idx)"
  by (simp add: idx_commit_def h_commit_def Let_def)

lemma byteAt_drop: "byteAt (drop p f) i = byteAt f (p + i)"
  by (auto simp: byteAt_def)

lemma readInt32BE_drop: "readInt32BE (drop p f) k = readInt32BE f (p + k)"
  by (rule readInt32BE_cong) (simp add: byteAt_drop add.assoc)

lemma persisted_field:
  "k + 4 \<le> length h \<Longrightarrow> readInt32BE (overwrite f k (take 4 (drop k h))) k = readInt32BE h k"
  using readInt32BE_overwrite_same [where k = 0 and src = "take 4 (drop k h)" and p = k and f = f]
  by (simp add: readInt32BE_take_drop [where k = 0 and n = 4, simplified])

lemma persisted_field':
  "k + 4 \<le> length h \<Longrightarrow> readInt32BE (overwrite f k (drop k h)) k = readInt32BE h k"
  using readInt32BE_overwrite_same [where k = 0 and src = "drop k h" and p = k and f = f]
  by (simp add: readInt32BE_drop)

lemma fresh_wal_created: "wal_create = Inr fresh_wal"
  by code_simp

lemma sample_wal_built:
  "fst (write_all fresh_wal [[1, 2, 3], [4, 5], [6], [7, 8, 9, 10]]) = Inr [0, 1, 2, 3]
   \<and> snd (wal_commit (snd (wal_commit
            (snd (write_all fresh_wal [[1, 2, 3], [4, 5], [6], [7, 8, 9, 10]])) 0)) 1)
       = sample_wal"
  by code_simp

section \<open>The scenarios of the test suite\<close>

text \<open>
  The model on the scenarios of the repository's tests (S1 to S6 and S8 of the
  specification), and on the example of the header comment of log-index-file.js.
\<close>

lemma scenario_create:
  "wal_size fresh_wal = 0 \<and> wal_next fresh_wal = Inr 0 \<and> wal_commitHead fresh_wal = Inr (- 1)"
  by code_simp

lemma scenario_first_write:
  "fst (wal_write fresh_wal (Buffer [1, 2, 3])) = Inr 0
   \<and> wal_next (snd (wal_write fresh_wal (Buffer [1, 2, 3]))) = Inr 1
   \<and> wal_commitHead (snd (wal_write fresh_wal (Buffer [1, 2, 3]))) = Inr (- 1)
   \<and> wal_size (snd (wal_write fresh_wal (Buffer [1, 2, 3]))) = 3"
  by code_simp

lemma scenario_read_back: "wal_read three_written 1 = Inr [4, 5]"
  by code_simp

lemma scenario_out_of_order_commit:
  "fst (wal_commit three_written 1)
     = Inl (Error ''Out of order commit; expected 0 but received 1.'')"
  by code_simp

lemma scenario_commits_in_order:
  "wal_commitHead (snd (wal_commit (snd (wal_commit (snd (wal_commit three_written 0)) 1)) 2))
     = Inr 2"
  by code_simp

lemma scenario_truncate_committed:
  "fst (wal_truncate (snd (wal_commit three_written 0)) 0)
     = Inl (AssertionError ''cannot truncate a committed log entry'')"
  by code_simp

lemma scenario_truncate_ahead:
  "fst (wal_truncate fresh_wal 1) = Inl (AssertionError ''index out of range'')"
  by code_simp

lemma scenario_truncate:
  "fst (wal_truncate (snd (wal_commit three_written 0)) 1) = Inr 3
   \<and> wal_size (snd (wal_truncate (snd (wal_commit three_written 0)) 1)) = 3
   \<and> wal_next (snd (wal_truncate (snd (wal_commit three_written 0)) 1)) = Inr 1
   \<and> wal_commitHead (snd (wal_truncate (snd (wal_commit three_written 0)) 1)) = Inr 0"
  by code_simp

lemma scenario_write_after_truncate:
  "fst (wal_write (snd (wal_truncate (snd (wal_commit three_written 0)) 1)) (Buffer [6])) = Inr 1"
  by code_simp

lemma scenario_recover_false:
  "fst (wal_recover sample_wal HFalse) = Inr ()
   \<and> wal_next (fst (snd (wal_recover sample_wal HFalse))) = Inr 2
   \<and> wal_commitHead (fst (snd (wal_recover sample_wal HFalse))) = Inr 1"
  by code_simp

lemma scenario_recover_until_refused:
  "fst (wal_recover sample_wal (HFunction (\<lambda>lsn entry. lsn < 3))) = Inr ()
   \<and> wal_next (fst (snd (wal_recover sample_wal (HFunction (\<lambda>lsn entry. lsn < 3))))) = Inr 3
   \<and> wal_commitHead (fst (snd (wal_recover sample_wal (HFunction (\<lambda>lsn entry. lsn < 3)))))
       = Inr 2
   \<and> snd (snd (wal_recover sample_wal (HFunction (\<lambda>lsn entry. lsn < 3))))
       = [(2, [6]), (3, [7, 8, 9, 10])]"
  by code_simp

lemma scenario_recover_no_handler:
  "fst (wal_recover fresh_wal HOther) = Inl (AssertionError ''handler (function) is required'')"
  by code_simp

lemma scenario_header_example:
  "readInt32BE [0x49, 0x44, 0x58, 0x24, 0, 0, 0, 0, 0, 0, 0, 2, 0, 0, 0, 1,
                0, 0, 0, 0, 0, 0, 0, 0x58, 0, 0, 2, 0x1f] 20 = 88
   \<and> readInt32BE [0x49, 0x44, 0x58, 0x24, 0, 0, 0, 0, 0, 0, 0, 2, 0, 0, 0, 1,
                0, 0, 0, 0, 0, 0, 0, 0x58, 0, 0, 2, 0x1f] 24 = 543
   \<and> toString_ascii [0x49, 0x44, 0x58, 0x24] 0 4 = MARKER"
  by code_simp

section \<open>Ordered commits\<close>

text \<open>
  C2 (as amended). In a log whose index is open and whose commit head \<open>C\<close> is below the
  largest 32-bit value, \<open>commit(C + 1)\<close> resolves with \<open>C + 1\<close>, makes it the commit head and
  stores it in the commit field of the index file, leaving the write head and the log file
  alone; \<open>commit(L)\<close> with \<open>L < C + 1\<close> resolves with \<open>L\<close> and changes nothing; \<open>commit(L)\<close> with
  \<open>L > C + 1\<close> rejects with the out-of-order error and changes nothing.
\<close>

theorem commit_protocol:
  assumes "header (windex s) = Some h" and "length h = HLEN"
    and "wal_commitHead s = Inr C" and "C < 2147483647"
    and "Lb < C + 1" and "Lc > C + 1"
  shows "(\<exists>s'. wal_commit s (C + 1) = (Inr (C + 1), s')
            \<and> wal_commitHead s' = Inr (C + 1)
            \<and> readInt32BE (ifile (windex s')) OFS_COMMIT = C + 1
            \<and> wal_next s' = wal_next s \<and> wfile s' = wfile s)
       \<and> wal_commit s Lb = (Inr Lb, s)
       \<and> wal_commit s Lc =
           (Inl (Error (''Out of order commit; expected '' @ string_of_int (C + 1)
                         @ '' but received '' @ string_of_int Lc @ ''.'')), s)"
proof -
  from assms(1,3) have C: "C = h_commit h"
    by (simp add: wal_commitHead_def idx_getters)
  have range: "- 2147483648 \<le> C" 
    unfolding C h_commit_def using readInt32BE_range by blast
  with \<open>C < 2147483647\<close> have w: "wrap32 (C + 1) = C + 1"
    by (simp add: wrap32_id)
  let ?h' = "writeInt32BE (C + 1) 12 h"
  let ?idx' = "\<lparr>ifile = overwrite (ifile (windex s)) 12 (take 4 (drop 12 ?h')), header = Some ?h'\<rparr>"
  have 1: "wal_commit s (C + 1) = (Inr (C + 1), s\<lparr>windex := ?idx'\<rparr>)"
    using idx_commit_next [OF assms(1,2)] by (simp add: wal_commit_def C)
  have 2: "wal_commitHead (s\<lparr>windex := ?idx'\<rparr>) = Inr (C + 1)"
    using assms(2) w
    by (simp add: wal_commitHead_def idx_commitHead_def OFS_COMMIT_def HLEN_def readInt32BE_write_same)
  have 3: "readInt32BE (ifile (windex (s\<lparr>windex := ?idx'\<rparr>))) OFS_COMMIT = C + 1"
    using assms(2) w
    by (simp add: OFS_COMMIT_def HLEN_def persisted_field' readInt32BE_write_same)
  have 4: "wal_next (s\<lparr>windex := ?idx'\<rparr>) = wal_next s"
    using assms(1,2)
    by (simp add: wal_next_def idx_head_def OFS_HEAD_def HLEN_def readInt32BE_write_other)
  have 5: "wal_commit s Lb = (Inr Lb, s)"
    using idx_commit_old [OF assms(1), of Lb] assms(5) by (simp add: wal_commit_def C)
  have 6: "wal_commit s Lc =
           (Inl (Error (''Out of order commit; expected '' @ string_of_int (C + 1)
                         @ '' but received '' @ string_of_int Lc @ ''.'')), s)"
    using idx_commit_later [OF assms(1), of Lc] assms(6) by (simp add: wal_commit_def C)
  from 1 2 3 4 5 6 show ?thesis by simp
qed

theorem commit_protocol_witness:
  "(\<exists>s'. wal_commit sample_wal (1 + 1) = (Inr (1 + 1), s')
            \<and> wal_commitHead s' = Inr (1 + 1)
            \<and> readInt32BE (ifile (windex s')) OFS_COMMIT = 1 + 1
            \<and> wal_next s' = wal_next sample_wal \<and> wfile s' = wfile sample_wal)
       \<and> wal_commit sample_wal 0 = (Inr 0, sample_wal)
       \<and> wal_commit sample_wal 5 =
           (Inl (Error (''Out of order commit; expected '' @ string_of_int (1 + 1)
                         @ '' but received '' @ string_of_int 5 @ ''.'')), sample_wal)"
proof -
  have h1: "header (windex sample_wal) = Some [73, 68, 88, 36, 0, 0, 0, 0, 0, 0, 0, 4, 0, 0, 0, 1]"
    by (simp add: sample_wal_def)
  have h2: "length [73 :: byte, 68, 88, 36, 0, 0, 0, 0, 0, 0, 0, 4, 0, 0, 0, 1] = HLEN"
    by (simp add: HLEN_def)
  have h3: "wal_commitHead sample_wal = Inr 1"
    by code_simp
  show ?thesis
    by (rule commit_protocol [OF h1 h2 h3]) simp_all
qed

text \<open>
  The claim as stated fails at the largest commit head: \<open>commit(2147483648)\<close> resolves,
  but the field it is stored in holds \<open>-2147483648\<close> afterwards.
\<close>

theorem commit_protocol_counterexample:
  "LogIndexFile_open (ifile (windex last_commit_wal)) = Inr (windex last_commit_wal)
   \<and> wal_commitHead last_commit_wal = Inr 2147483647
   \<and> fst (wal_commit last_commit_wal (2147483647 + 1)) = Inr (2147483647 + 1)
   \<and> wal_commitHead (snd (wal_commit last_commit_wal (2147483647 + 1))) = Inr (- 2147483648)"
  by code_simp

section \<open>The committed predicate\<close>

text \<open>
  C8. In a log whose index is open with commit head \<open>C\<close>, \<open>isCommitted(L)\<close> is \<open>L < C\<close>,
  strictly; and once \<open>commit(C + 1)\<close> has resolved, \<open>isCommitted(C + 1)\<close> is false for the
  LSN that was just committed.
\<close>

theorem isCommitted_strictly_below:
  assumes "header (windex s) = Some h" and "length h = HLEN"
    and "wal_commitHead s = Inr C"
  shows "wal_isCommitted s L = Inr (L < C)
       \<and> fst (wal_commit s (C + 1)) = Inr (C + 1)
       \<and> wal_isCommitted (snd (wal_commit s (C + 1))) (C + 1) = Inr False"
proof -
  from assms(1,3) have C: "C = h_commit h"
    by (simp add: wal_commitHead_def idx_getters)
  have 1: "wal_isCommitted s L = Inr (L < C)"
    using assms(1) by (simp add: wal_isCommitted_def idx_isCommitted_def idx_getters C)
  let ?h' = "writeInt32BE (C + 1) 12 h"
  let ?idx' = "\<lparr>ifile = overwrite (ifile (windex s)) 12 (take 4 (drop 12 ?h')), header = Some ?h'\<rparr>"
  have 2: "wal_commit s (C + 1) = (Inr (C + 1), s\<lparr>windex := ?idx'\<rparr>)"
    using idx_commit_next [OF assms(1,2)] by (simp add: wal_commit_def C)
  have "h_commit ?h' = wrap32 (C + 1)"
    using assms(2) by (simp add: h_commit_def OFS_COMMIT_def HLEN_def readInt32BE_write_same)
  moreover have "wrap32 (C + 1) \<le> C + 1"
  proof (cases "C + 1 < 2147483648")
    case True
    moreover have "- 2147483648 \<le> C"
      unfolding C h_commit_def using readInt32BE_range by blast
    ultimately show ?thesis by (simp add: wrap32_id)
  next
    case False
    then show ?thesis using wrap32_range [of "C + 1"] by linarith
  qed
  ultimately have 3: "wal_isCommitted (s\<lparr>windex := ?idx'\<rparr>) (C + 1) = Inr False"
    by (simp add: wal_isCommitted_def idx_isCommitted_def idx_getters [of ?idx' ?h'])
  from 1 2 3 show ?thesis by simp
qed

theorem isCommitted_strictly_below_witness:
  "wal_isCommitted sample_wal 0 = Inr True
       \<and> wal_isCommitted sample_wal 1 = Inr False
       \<and> fst (wal_commit sample_wal 2) = Inr 2
       \<and> wal_isCommitted (snd (wal_commit sample_wal 2)) 2 = Inr False"
proof -
  have h1: "header (windex sample_wal) = Some [73, 68, 88, 36, 0, 0, 0, 0, 0, 0, 0, 4, 0, 0, 0, 1]"
    by (simp add: sample_wal_def)
  have h2: "length [73 :: byte, 68, 88, 36, 0, 0, 0, 0, 0, 0, 0, 4, 0, 0, 0, 1] = HLEN"
    by (simp add: HLEN_def)
  have h3: "wal_commitHead sample_wal = Inr 1"
    by code_simp
  show ?thesis
    using isCommitted_strictly_below [OF h1 h2 h3, of 0]
      isCommitted_strictly_below [OF h1 h2 h3, of 1] by simp
qed

section \<open>Operations on a closed index\<close>

text \<open>
  C10. \<open>close()\<close> resolves and clears the cached header; afterwards \<open>marker\<close>, \<open>baseIndex\<close>,
  \<open>head\<close>, \<open>commitHead\<close>, \<open>isCommitted\<close>, \<open>commit\<close>, \<open>offset\<close>, \<open>get\<close>, \<open>getRange\<close> and
  \<open>increment\<close> each fail with the assertion \<open>index must be open\<close>.
\<close>

theorem closed_index_fails:
  "fst (idx_close idx) = Inr ()
   \<and> header (snd (idx_close idx)) = None
   \<and> idx_marker (snd (idx_close idx)) = Inl (AssertionError ''index must be open'')
   \<and> idx_baseIndex (snd (idx_close idx)) = Inl (AssertionError ''index must be open'')
   \<and> idx_head (snd (idx_close idx)) = Inl (AssertionError ''index must be open'')
   \<and> idx_commitHead (snd (idx_close idx)) = Inl (AssertionError ''index must be open'')
   \<and> idx_isCommitted (snd (idx_close idx)) L = Inl (AssertionError ''index must be open'')
   \<and> fst (idx_commit (snd (idx_close idx)) L) = Inl (AssertionError ''index must be open'')
   \<and> idx_offset (snd (idx_close idx)) L = Inl (AssertionError ''index must be open'')
   \<and> idx_get (snd (idx_close idx)) L = Inl (AssertionError ''index must be open'')
   \<and> idx_getRange (snd (idx_close idx)) L n = Inl (AssertionError ''index must be open'')
   \<and> fst (idx_increment (snd (idx_close idx)) v) = Inl (AssertionError ''index must be open'')"
  by (simp add: idx_close_def idx_marker_def idx_baseIndex_def idx_head_def idx_commitHead_def
      idx_isCommitted_def idx_commit_def idx_offset_def idx_get_def idx_getRange_def
      idx_increment_def)

section \<open>Well-formed logs\<close>

lemma length_allocFill [simp]: "length (allocFill n) = n"
  by (simp add: allocFill_def)

lemma header_head_update:
  assumes "length h = HLEN"
  shows "h_head (writeInt32BE v OFS_HEAD h) = wrap32 v"
    and "h_base (writeInt32BE v OFS_HEAD h) = h_base h"
    and "h_commit (writeInt32BE v OFS_HEAD h) = h_commit h"
  using assms
  by (simp_all add: h_head_def h_base_def h_commit_def consts_defs
      readInt32BE_write_same readInt32BE_write_other)

lemma slot_pos_mono: "base \<le> L \<Longrightarrow> L < K \<Longrightarrow> slot_pos base L + 4 \<le> slot_pos base K"
  by (simp add: slot_pos_def HLEN_def SIZEOF_INT_def)

lemma slot_persist_header:
  assumes "base \<le> L" and "k + 4 \<le> 16"
  shows "slot (overwrite f k (take 4 (drop k h))) base L = slot f base L"
  unfolding slot_def
  using slot_pos_ge [OF assms(1)] assms(2)
  by (intro readInt32BE_overwrite_other) simp

lemma slot_write:
  assumes "base \<le> L" and "base \<le> K"
  shows "slot (overwrite f (slot_pos base K) (writeInt32BE v 0 (allocFill 4))) base L =
           (if L = K then wrap32 v else slot f base L)"
proof (cases "L = K")
  case True
  have "readInt32BE (overwrite f (slot_pos base K) (writeInt32BE v 0 (allocFill 4)))
          (slot_pos base K + 0) = readInt32BE (writeInt32BE v 0 (allocFill 4)) 0"
    by (rule readInt32BE_overwrite_same) (simp add: allocFill_def)
  with True show ?thesis
    by (simp add: slot_def readInt32BE_enc)
next
  case False
  then have "slot_pos base L + 4 \<le> slot_pos base K \<or> slot_pos base K + 4 \<le> slot_pos base L"
    using slot_pos_mono [of base L K] slot_pos_mono [of base K L] assms by linarith
  then show ?thesis
    using False by (simp add: slot_def readInt32BE_overwrite_other)
qed

lemma steps_iff:
  "(\<forall>k \<in> set [0 ..< nat (H - b)]. P (b + int k)) \<longleftrightarrow> (\<forall>L. b \<le> L \<and> L < H \<longrightarrow> P L)"
proof
  assume h: "\<forall>k \<in> set [0 ..< nat (H - b)]. P (b + int k)"
  show "\<forall>L. b \<le> L \<and> L < H \<longrightarrow> P L"
  proof (intro allI impI)
    fix L assume "b \<le> L \<and> L < H"
    then have "nat (L - b) \<in> set [0 ..< nat (H - b)]" by auto
    with h have "P (b + int (nat (L - b)))" by blast
    with \<open>b \<le> L \<and> L < H\<close> show "P L" by simp
  qed
next
  assume "\<forall>L. b \<le> L \<and> L < H \<longrightarrow> P L"
  then show "\<forall>k \<in> set [0 ..< nat (H - b)]. P (b + int k)" by auto
qed

lemma wal_ok_iff:
  "wal_ok s \<longleftrightarrow>
     (\<exists>h. header (windex s) = Some h
          \<and> length h = HLEN
          \<and> h_base h \<le> h_head h
          \<and> h_base h - 1 \<le> h_commit h
          \<and> int HLEN + (h_head h - h_base h + 1) * int SIZEOF_INT
                \<le> int (length (ifile (windex s)))
          \<and> slot (ifile (windex s)) (h_base h) (h_base h) = 0
          \<and> (\<forall>L. h_base h \<le> L \<and> L < h_head h \<longrightarrow>
                slot (ifile (windex s)) (h_base h) L \<le> slot (ifile (windex s)) (h_base h) (L + 1))
          \<and> slot (ifile (windex s)) (h_base h) (h_head h) = ra_size (wfile s))"
  unfolding wal_ok_def
  using steps_iff [where P = "\<lambda>L. slot (ifile (windex s)) (h_base (the (header (windex s)))) L
       \<le> slot (ifile (windex s)) (h_base (the (header (windex s)))) (L + 1)"
       and H = "h_head (the (header (windex s)))" and b = "h_base (the (header (windex s)))"]
  by (cases "header (windex s)") (simp_all add: add.assoc)

lemma slot_mono:
  assumes "\<forall>L. b \<le> L \<and> L < H \<longrightarrow> slot f b L \<le> slot f b (L + 1)"
    and "b \<le> L" and "L \<le> K" and "K \<le> H"
  shows "slot f b L \<le> slot f b K"
proof -
  have "\<And>K. L \<le> K \<Longrightarrow> K \<le> H \<Longrightarrow> n = nat (K - L) \<Longrightarrow> slot f b L \<le> slot f b K" for n
  proof (induction n)
    case 0
    then show ?case by simp
  next
    case (Suc n)
    then have "slot f b L \<le> slot f b (K - 1)" by simp
    moreover have "b \<le> K - 1 \<and> K - 1 < H"
      using assms(2) Suc.prems by linarith
    then have "slot f b (K - 1) \<le> slot f b (K - 1 + 1)"
      using assms(1) by blast
    ultimately show ?case by simp
  qed
  then show ?thesis using assms by blast
qed

lemma idx_increment_eq:
  assumes "header idx = Some h" and "h_base h \<le> h_head h + 1" and "length h = HLEN"
  shows "idx_increment idx v =
     (Inr (h_head h),
      \<lparr>ifile = overwrite (overwrite (ifile idx) (slot_pos (h_base h) (h_head h + 1))
                            (writeInt32BE v 0 (allocFill 4)))
                 8 (take 4 (drop 8 (writeInt32BE (h_head h + 1) OFS_HEAD h))),
       header = Some (writeInt32BE (h_head h + 1) OFS_HEAD h)\<rparr>)"
  using assms
  by (simp add: idx_increment_def Let_def h_head_def h_base_def ra_write_def ra_write_bytes_def
      ra_write_part_def slot_pos_def consts_defs)

section \<open>Writing, reading and truncating in a well-formed log\<close>

lemma wal_write_eq:
  assumes "wal_ok s" and "header (windex s) = Some h" and "p \<noteq> []"
  shows "wal_write s (Buffer p) =
     (Inr (h_head h),
      \<lparr>wfile = wfile s @ p,
       windex =
         \<lparr>ifile = overwrite (overwrite (ifile (windex s)) (slot_pos (h_base h) (h_head h + 1))
                               (writeInt32BE (ra_size (wfile s) + int (length p)) 0 (allocFill 4)))
                    8 (take 4 (drop 8 (writeInt32BE (h_head h + 1) OFS_HEAD h))),
          header = Some (writeInt32BE (h_head h + 1) OFS_HEAD h)\<rparr>\<rparr>)"
proof -
  from assms have b: "h_base h \<le> h_head h" and len: "length h = HLEN"
    and sz: "slot (ifile (windex s)) (h_base h) (h_head h) = ra_size (wfile s)"
    by (auto simp: wal_ok_iff)
  have 1: "idx_offset (windex s) (h_head h) = Inr (ra_size (wfile s))"
    using idx_offset_eq [OF assms(2), of "h_head h"] b sz by simp
  have 2: "ra_write (wfile s) (ra_size (wfile s)) (Buffer p) =
             (Inr (ra_size (wfile s) + int (length p)), wfile s @ p)"
    using assms(3) by (simp add: ra_write_def ra_write_bytes_def ra_size_def overwrite_at_end)
  have 3: "h_base h \<le> h_head h + 1" using b by simp
  show ?thesis
    using 1 2 idx_increment_eq [OF assms(2) 3 len] assms(2)
    by (simp add: wal_write_def idx_getters)
qed

lemma wal_write_ok:
  assumes "wal_ok s" and "header (windex s) = Some h"
    and "h_head h + 1 < 2147483648"
    and "ra_size (wfile s) + int (length p) < 2147483648"
    and "wal_write s (Buffer p) = (r, s')" and "p \<noteq> []"
  shows "wal_ok s'"
proof -
  let ?b = "h_base h" and ?H = "h_head h" and ?f = "ifile (windex s)"
  let ?v = "ra_size (wfile s) + int (length p)"
  let ?h' = "writeInt32BE (?H + 1) OFS_HEAD h"
  let ?f1 = "overwrite ?f (slot_pos ?b (?H + 1)) (writeInt32BE ?v 0 (allocFill 4))"
  let ?f2 = "overwrite ?f1 8 (take 4 (drop 8 ?h'))"
  from assms(1,2) have len: "length h = HLEN" and b: "?b \<le> ?H" and c: "?b - 1 \<le> h_commit h"
    and fits: "int HLEN + (?H - ?b + 1) * int SIZEOF_INT \<le> int (length ?f)"
    and zero: "slot ?f ?b ?b = 0"
    and mono: "\<forall>L. ?b \<le> L \<and> L < ?H \<longrightarrow> slot ?f ?b L \<le> slot ?f ?b (L + 1)"
    and sz: "slot ?f ?b ?H = ra_size (wfile s)"
    by (auto simp: wal_ok_iff)
  from assms(5) wal_write_eq [OF assms(1,2,6)]
  have s': "s' = \<lparr>wfile = wfile s @ p, windex = \<lparr>ifile = ?f2, header = Some ?h'\<rparr>\<rparr>"
    by simp
  have "- 2147483648 \<le> ?H"
    unfolding h_head_def using readInt32BE_range by blast
  with assms(3) have wH: "wrap32 (?H + 1) = ?H + 1"
    by (simp add: wrap32_id)
  have "0 \<le> ?v" by (simp add: ra_size_def)
  with assms(4) have wv: "wrap32 ?v = ?v"
    by (simp add: wrap32_id)
  have hd: "h_head ?h' = ?H + 1" "h_base ?h' = ?b" "h_commit ?h' = h_commit h"
    using header_head_update [OF len, of "?H + 1"] wH by simp_all
  have sl: "slot ?f2 ?b L = (if L = ?H + 1 then ?v else slot ?f ?b L)" if "?b \<le> L" for L
    using that slot_persist_header [of ?b L 8 ?f1 ?h'] slot_write [of ?b L "?H + 1" ?f ?v] b wv
    by simp
  have pos: "slot_pos ?b (?H + 1) + 4 = nat (int HLEN + (?H + 1 - ?b + 1) * int SIZEOF_INT)"
    using b by (simp add: slot_pos_def consts_defs)
  have fits': "int HLEN + (?H + 1 - ?b + 1) * int SIZEOF_INT \<le> int (length ?f2)"
    using b pos by (simp add: consts_defs)
  have zero': "slot ?f2 ?b ?b = 0"
    using sl [of ?b] b zero by simp
  have mono': "slot ?f2 ?b L \<le> slot ?f2 ?b (L + 1)" if "?b \<le> L \<and> L < ?H + 1" for L
  proof (cases "L = ?H")
    case True
    then show ?thesis using sl [of ?H] sl [of "?H + 1"] b sz by simp
  next
    case False
    with that have "L < ?H" by simp
    then show ?thesis using sl [of L] sl [of "L + 1"] that mono by simp
  qed
  have sz': "slot ?f2 ?b (?H + 1) = ra_size (wfile s @ p)"
    using sl [of "?H + 1"] b by (simp add: ra_size_def)
  show ?thesis
    unfolding wal_ok_iff s'
    using len hd b c fits' zero' mono' sz'
    by simp
qed

lemma wal_read_eq:
  assumes "wal_ok s" and "header (windex s) = Some h"
    and "h_base h \<le> L" and "L < h_head h"
  shows "wal_read s L =
     Inr (take (nat (slot (ifile (windex s)) (h_base h) (L + 1)
                     - slot (ifile (windex s)) (h_base h) L))
            (drop (nat (slot (ifile (windex s)) (h_base h) L)) (wfile s)))"
proof -
  let ?b = "h_base h" and ?H = "h_head h" and ?f = "ifile (windex s)"
  from assms(1,2) have zero: "slot ?f ?b ?b = 0"
    and mono: "\<forall>L. ?b \<le> L \<and> L < ?H \<longrightarrow> slot ?f ?b L \<le> slot ?f ?b (L + 1)"
    by (auto simp: wal_ok_iff)
  have "slot ?f ?b ?b \<le> slot ?f ?b L"
    using slot_mono [OF mono, of ?b L] assms(3,4) by simp
  then have 1: "0 \<le> slot ?f ?b L" using zero by simp
  have 2: "slot ?f ?b L \<le> slot ?f ?b (L + 1)"
    using mono assms(3,4) by simp
  show ?thesis
    using idx_get_eq [OF assms(2,4,3)] 1 2
    by (simp add: wal_read_def ra_read_def)
qed

lemma idx_truncate_eq:
  assumes "header idx = Some h" and "length h = HLEN"
    and "h_commit h < T" and "T < h_head h" and "h_base h \<le> T"
  shows "idx_truncate idx T =
     (Inr (slot (ifile idx) (h_base h) T),
      \<lparr>ifile = overwrite (ifile idx) 8 (take 4 (drop 8 (writeInt32BE T OFS_HEAD h))),
       header = Some (writeInt32BE T OFS_HEAD h)\<rparr>)"
proof -
  let ?h' = "writeInt32BE T OFS_HEAD h"
  let ?f' = "overwrite (ifile idx) 8 (take 4 (drop 8 ?h'))"
  let ?idx' = "\<lparr>ifile = ?f', header = Some ?h'\<rparr>"
  have "- 2147483648 \<le> h_commit h" "h_head h < 2147483648"
    unfolding h_commit_def h_head_def using readInt32BE_range by blast+
  with assms(3,4) have wT: "wrap32 T = T"
    by (simp add: wrap32_id)
  have hd: "h_head ?h' = T" "h_base ?h' = h_base h"
    using header_head_update [OF assms(2), of T] wT by simp_all
  have sl: "slot ?f' (h_base h) L = slot (ifile idx) (h_base h) L" if "h_base h \<le> L" for L
    using that slot_persist_header [of "h_base h" L 8 "ifile idx" ?h'] by simp
  have getters: "idx_head ?idx' = Inr T" "idx_baseIndex ?idx' = Inr (h_base h)"
    using idx_getters [of ?idx' ?h'] hd by simp_all
  have tail: "bindE (if T = h_base h then
                 bindE (ra_read ?f' (int HLEN) (int SIZEOF_INT)) (\<lambda>data.
                 Inr \<lparr>rec_offset = readInt32BE data 0, rec_length = 0\<rparr>)
               else idx_get ?idx' (T - 1)) (\<lambda>r. Inr (rec_offset r + rec_length r))
             = Inr (slot (ifile idx) (h_base h) T)"
  proof (cases "T = h_base h")
    case True
    have "readInt32BE (take 4 (drop 16 ?f')) 0 = slot ?f' (h_base h) (h_base h)"
      by (simp add: slot_def slot_pos_def consts_defs
          readInt32BE_take_drop [where k = 0 and n = 4, simplified])
    then show ?thesis
      using True sl [of "h_base h"] by (simp add: ra_read_def consts_defs)
  next
    case False
    with assms(5) have lt: "h_base ?h' \<le> T - 1" "T - 1 < h_head ?h'"
      using hd by simp_all
    have "header ?idx' = Some ?h'" by simp
    then have "idx_get ?idx' (T - 1) =
            Inr \<lparr>rec_offset = slot (ifile ?idx') (h_base ?h') (T - 1),
                 rec_length = slot (ifile ?idx') (h_base ?h') (T - 1 + 1)
                              - slot (ifile ?idx') (h_base ?h') (T - 1)\<rparr>"
      using lt(2) lt(1) by (rule idx_get_eq)
    then show ?thesis
      using False sl [of T] assms(5) hd by simp
  qed
  show ?thesis
    using assms(1,2,3,4) tail getters
    unfolding idx_truncate_def consts_defs
    by (simp add: idx_getters Let_def ra_write_part_def ra_write_bytes_def split del: if_split cong: if_cong)
qed

lemma telescope:
  "B \<le> T \<Longrightarrow> sum_list (map (\<lambda>L. g (L + 1) - g L) [B..T - 1]) = g T - (g B :: int)"
proof (induction "nat (T - B)" arbitrary: T)
  case 0
  then show ?case by simp
next
  case (Suc n)
  then have "B \<le> T - 1" and "n = nat (T - 1 - B)" by linarith+
  then have "sum_list (map (\<lambda>L. g (L + 1) - g L) [B..T - 1 - 1]) = g (T - 1) - g B"
    using Suc.hyps(1) by blast
  moreover have "[B..T - 1] = [B..T - 1 - 1] @ [T - 1]"
    using \<open>B \<le> T - 1\<close> by (simp add: upto_rec2)
  ultimately show ?case by simp
qed

lemma wal_truncate_eq:
  assumes "wal_ok s" and "header (windex s) = Some h"
    and "h_commit h < T" and "T < h_head h"
  shows "wal_truncate s T =
     (Inr (slot (ifile (windex s)) (h_base h) T),
      \<lparr>wfile = take (nat (slot (ifile (windex s)) (h_base h) T)) (wfile s),
       windex =
         \<lparr>ifile = overwrite (ifile (windex s)) 8 (take 4 (drop 8 (writeInt32BE T OFS_HEAD h))),
          header = Some (writeInt32BE T OFS_HEAD h)\<rparr>\<rparr>)"
    and "0 \<le> slot (ifile (windex s)) (h_base h) T"
    and "slot (ifile (windex s)) (h_base h) T \<le> ra_size (wfile s)"
proof -
  let ?b = "h_base h" and ?H = "h_head h" and ?f = "ifile (windex s)"
  from assms(1,2) have len: "length h = HLEN" and c: "?b - 1 \<le> h_commit h"
    and zero: "slot ?f ?b ?b = 0"
    and mono: "\<forall>L. ?b \<le> L \<and> L < ?H \<longrightarrow> slot ?f ?b L \<le> slot ?f ?b (L + 1)"
    and sz: "slot ?f ?b ?H = ra_size (wfile s)"
    by (auto simp: wal_ok_iff)
  from c assms(3) have bT: "?b \<le> T" by simp
  have "slot ?f ?b ?b \<le> slot ?f ?b T"
    using slot_mono [OF mono, of ?b T] bT assms(4) by simp
  then show lo: "0 \<le> slot ?f ?b T" using zero by simp
  have "slot ?f ?b T \<le> slot ?f ?b ?H"
    using slot_mono [OF mono, of T ?H] bT assms(4) by simp
  then show hi: "slot ?f ?b T \<le> ra_size (wfile s)" using sz by simp
  have "nat (slot ?f ?b T) - length (wfile s) = 0"
    using hi by (simp add: ra_size_def)
  then show "wal_truncate s T =
     (Inr (slot ?f ?b T),
      \<lparr>wfile = take (nat (slot ?f ?b T)) (wfile s),
       windex =
         \<lparr>ifile = overwrite ?f 8 (take 4 (drop 8 (writeInt32BE T OFS_HEAD h))),
          header = Some (writeInt32BE T OFS_HEAD h)\<rparr>\<rparr>)"
    using idx_truncate_eq [OF assms(2) len assms(3,4) bT] lo
    by (simp add: wal_truncate_def ra_truncate_def)
qed

lemma wal_truncate_ok:
  assumes "wal_ok s" and "header (windex s) = Some h"
    and "h_commit h < T" and "T < h_head h"
    and "wal_truncate s T = (r, s')"
  shows "wal_ok s'"
proof -
  let ?b = "h_base h" and ?H = "h_head h" and ?f = "ifile (windex s)"
  let ?h' = "writeInt32BE T OFS_HEAD h"
  let ?f' = "overwrite ?f 8 (take 4 (drop 8 ?h'))"
  from assms(1,2) have len: "length h = HLEN" and c: "?b - 1 \<le> h_commit h"
    and fits: "int HLEN + (?H - ?b + 1) * int SIZEOF_INT \<le> int (length ?f)"
    and zero: "slot ?f ?b ?b = 0"
    and mono: "\<forall>L. ?b \<le> L \<and> L < ?H \<longrightarrow> slot ?f ?b L \<le> slot ?f ?b (L + 1)"
    by (auto simp: wal_ok_iff)
  from c assms(3) have bT: "?b \<le> T" by simp
  from assms(5) wal_truncate_eq(1) [OF assms(1-4)]
  have s': "s' = \<lparr>wfile = take (nat (slot ?f ?b T)) (wfile s),
                   windex = \<lparr>ifile = ?f', header = Some ?h'\<rparr>\<rparr>"
    by simp
  have "- 2147483648 \<le> h_commit h" "?H < 2147483648"
    unfolding h_commit_def h_head_def using readInt32BE_range by blast+
  with assms(3,4) have wT: "wrap32 T = T"
    by (simp add: wrap32_id)
  have hd: "h_head ?h' = T" "h_base ?h' = ?b" "h_commit ?h' = h_commit h"
    using header_head_update [OF len, of T] wT by simp_all
  have sl: "slot ?f' ?b L = slot ?f ?b L" if "?b \<le> L" for L
    using that slot_persist_header [of ?b L 8 ?f ?h'] by simp
  have fits': "int HLEN + (T - ?b + 1) * int SIZEOF_INT \<le> int (length ?f')"
    using fits assms(4) by (simp add: consts_defs)
  have mono': "slot ?f' ?b L \<le> slot ?f' ?b (L + 1)" if "?b \<le> L \<and> L < T" for L
    using that sl [of L] sl [of "L + 1"] mono assms(4) by simp
  have sz': "slot ?f' ?b T = ra_size (take (nat (slot ?f ?b T)) (wfile s))"
    using sl [of T] bT wal_truncate_eq(2,3) [OF assms(1-4)] by (simp add: ra_size_def)
  show ?thesis
    unfolding wal_ok_iff s'
    using len hd bT c fits' zero sl [of ?b] mono' sz'
    by simp
qed

lemma wal_truncate_refused:
  assumes "wal_commitHead s = Inr C" and "wal_next s = Inr H" and "\<not> (C < U \<and> U < H)"
  shows "wal_truncate s U =
     (Inl (AssertionError (if \<not> C < U then ''cannot truncate a committed log entry''
                           else ''index out of range'')), s)"
proof -
  from assms(1) obtain h where h: "header (windex s) = Some h"
    by (cases "header (windex s)") (simp_all add: wal_commitHead_def idx_commitHead_def)
  with assms(1,2) have "C = h_commit h" "H = h_head h"
    by (simp_all add: wal_commitHead_def wal_next_def idx_getters)
  with assms(3) h show ?thesis
    by (auto simp add: wal_truncate_def idx_truncate_def idx_getters)
qed

section \<open>Truncation\<close>

text \<open>
  C3. In a log with commit head \<open>C\<close> and write head \<open>H\<close>, \<open>truncate(T)\<close> requires
  \<open>C < T < H\<close>. When that holds in a well-formed log with base \<open>B\<close>, the call resolves
  with the new size of the log file; afterwards the write head is \<open>T\<close>, the commit head is
  still \<open>C\<close>, and the size is the sum of the lengths of the entries with LSN below \<open>T\<close>; the
  end offset the index returns is the offset of the base slot when \<open>T = B\<close>, and
  \<open>get(T - 1).offset + get(T - 1).length\<close> otherwise. When it does not hold, in any log
  whose index is open, the call fails with the assertion of the violated bound and changes
  nothing.
\<close>

theorem truncate_postcondition:
  assumes "wal_commitHead s = Inr C" and "wal_next s = Inr H"
  shows "(wal_ok s \<and> idx_baseIndex (windex s) = Inr B \<and> C < T \<and> T < H \<longrightarrow>
            (\<exists>s'. wal_truncate s T = (Inr (wal_size s'), s')
                \<and> wal_next s' = Inr T
                \<and> wal_commitHead s' = Inr C
                \<and> wal_size s' = sum_list (map (entry_length s) [B..T - 1])
                \<and> wal_ok s')
            \<and> (T = B \<longrightarrow> fst (idx_truncate (windex s) T) = idx_offset (windex s) B)
            \<and> (T \<noteq> B \<longrightarrow> (\<exists>r. idx_get (windex s) (T - 1) = Inr r
                    \<and> fst (idx_truncate (windex s) T) = Inr (rec_offset r + rec_length r))))
       \<and> (\<not> (C < T \<and> T < H) \<longrightarrow>
            wal_truncate s T =
              (Inl (AssertionError (if \<not> C < T then ''cannot truncate a committed log entry''
                                    else ''index out of range'')), s))"
proof (intro conjI impI)
  assume "\<not> (C < T \<and> T < H)"
  then show "wal_truncate s T =
      (Inl (AssertionError (if \<not> C < T then ''cannot truncate a committed log entry''
                            else ''index out of range'')), s)"
    using wal_truncate_refused [OF assms] by simp
next
  assume a: "wal_ok s \<and> idx_baseIndex (windex s) = Inr B \<and> C < T \<and> T < H"
  then have ok: "wal_ok s" and CT: "C < T" and TH: "T < H"
    by simp_all
  from ok obtain h where h: "header (windex s) = Some h"
    by (auto simp: wal_ok_iff)
  with assms a have C: "C = h_commit h" and H: "H = h_head h" and B: "B = h_base h"
    by (simp_all add: wal_commitHead_def wal_next_def idx_getters)
  let ?f = "ifile (windex s)"
  let ?h' = "writeInt32BE T OFS_HEAD h"
  let ?s' = "\<lparr>wfile = take (nat (slot ?f B T)) (wfile s),
             windex = \<lparr>ifile = overwrite ?f 8 (take 4 (drop 8 ?h')), header = Some ?h'\<rparr>\<rparr>"
  from ok h have len: "length h = HLEN" and c: "B - 1 \<le> C"
    and zero: "slot ?f B B = 0"
    by (auto simp: wal_ok_iff B C)
  from c CT have BT: "B \<le> T" by simp
  have lt: "h_commit h < T" "T < h_head h"
    using CT TH C H by simp_all
  note tr = wal_truncate_eq [OF ok h lt, folded B]
  have "- 2147483648 \<le> h_commit h" "h_head h < 2147483648"
    unfolding h_commit_def h_head_def using readInt32BE_range by blast+
  with lt have wT: "wrap32 T = T"
    by (simp add: wrap32_id)
  have hd: "h_head ?h' = T" "h_commit ?h' = C"
    using header_head_update [OF len, of T] wT C by simp_all
  have size': "wal_size ?s' = slot ?f B T"
    using tr(2,3) by (simp add: wal_size_def ra_size_def)
  have len_eq: "entry_length s L = slot ?f B (L + 1) - slot ?f B L" if "L \<in> set [B..T - 1]" for L
    using that idx_get_eq [OF h, of L] lt(2) by (simp add: entry_length_def B)
  have "sum_list (map (entry_length s) [B..T - 1])
          = sum_list (map (\<lambda>L. slot ?f B (L + 1) - slot ?f B L) [B..T - 1])"
    by (rule arg_cong [where f = sum_list]) (simp add: len_eq)
  also have "\<dots> = slot ?f B T - slot ?f B B"
    using BT by (rule telescope)
  finally have sum: "sum_list (map (entry_length s) [B..T - 1]) = slot ?f B T"
    using zero by simp
  have ok': "wal_ok ?s'"
    using wal_truncate_ok [OF ok h lt] tr(1) by simp
  show "\<exists>s'. wal_truncate s T = (Inr (wal_size s'), s')
            \<and> wal_next s' = Inr T
            \<and> wal_commitHead s' = Inr C
            \<and> wal_size s' = sum_list (map (entry_length s) [B..T - 1])
            \<and> wal_ok s'"
    using tr(1) size' sum ok' hd
    by (intro exI [of _ ?s']) (simp add: wal_next_def wal_commitHead_def idx_getters)
  have it: "fst (idx_truncate (windex s) T) = Inr (slot ?f B T)"
    using idx_truncate_eq [OF h len lt] BT by (simp add: B)
  show "fst (idx_truncate (windex s) T) = idx_offset (windex s) B" if "T = B"
    using that it idx_offset_eq [OF h, of B] BT lt(2) by (auto simp add: B)
  show "\<exists>r. idx_get (windex s) (T - 1) = Inr r
                \<and> fst (idx_truncate (windex s) T) = Inr (rec_offset r + rec_length r)"
    if "T \<noteq> B"
    using that it idx_get_eq [OF h, of "T - 1"] BT lt(2) by (auto simp add: B)
qed

theorem truncate_postcondition_witness:
  "(\<exists>s'. wal_truncate sample_wal 3 = (Inr (wal_size s'), s')
            \<and> wal_next s' = Inr 3
            \<and> wal_commitHead s' = Inr 1
            \<and> wal_size s' = sum_list (map (entry_length sample_wal) [0..3 - 1])
            \<and> wal_ok s')
       \<and> (\<exists>r. idx_get (windex sample_wal) (3 - 1) = Inr r
                \<and> fst (idx_truncate (windex sample_wal) 3) = Inr (rec_offset r + rec_length r))
       \<and> wal_truncate sample_wal 1
           = (Inl (AssertionError ''cannot truncate a committed log entry''), sample_wal)
       \<and> wal_truncate sample_wal 4 = (Inl (AssertionError ''index out of range''), sample_wal)
       \<and> wal_truncate fresh_wal 1 = (Inl (AssertionError ''index out of range''), fresh_wal)
       \<and> wal_truncate fresh_wal 0 = (Inl (AssertionError ''index out of range''), fresh_wal)"
proof -
  have h1: "wal_ok sample_wal" by code_simp
  have h2: "wal_commitHead sample_wal = Inr 1" by code_simp
  have h3: "wal_next sample_wal = Inr 4" by code_simp
  have h4: "idx_baseIndex (windex sample_wal) = Inr 0" by code_simp
  have f2: "wal_commitHead fresh_wal = Inr (- 1)" by code_simp
  have f3: "wal_next fresh_wal = Inr 0" by code_simp
  show ?thesis
    using truncate_postcondition [OF h2 h3, of 0 3] truncate_postcondition [OF h2 h3, of 0 1]
      truncate_postcondition [OF h2 h3, of 0 4] truncate_postcondition [OF f2 f3, of 0 1]
      truncate_postcondition [OF f2 f3, of 0 0] h1 h4
    by simp
qed


section \<open>Recovery\<close>




section \<open>Payloads that write refuses\<close>

text \<open>
  C9. \<open>write\<close> with a missing payload, with a string or with an empty buffer fails and
  leaves the log as it was, so the write head, the commit head and the size of the log file
  are unchanged; in a well-formed log the failure for a payload that is not a buffer is the
  assertion \<open>data (Buffer) is required\<close> of the log file.
\<close>

theorem write_requires_payload:
  "(\<exists>e. wal_write s Undefined = (Inl e, s))
   \<and> (\<exists>e. wal_write s (Str t) = (Inl e, s))
   \<and> (\<exists>e. wal_write s (Buffer []) = (Inl e, s))
   \<and> (wal_ok s \<longrightarrow>
        wal_write s Undefined = (Inl (AssertionError ''data (Buffer) is required''), s)
        \<and> wal_write s (Str t) = (Inl (AssertionError ''data (Buffer) is required''), s))"
proof -
  have any: "\<exists>e. wal_write s d = (Inl e, s)" if "\<And>b. d = Buffer b \<Longrightarrow> b = []" for d
    using that
    by (cases d) (auto simp: wal_write_def ra_write_def ra_write_bytes_def split: sum.splits)
  have ok: "wal_write s d = (Inl (AssertionError ''data (Buffer) is required''), s)"
    if "\<And>b. d \<noteq> Buffer b" and "wal_ok s" for d
  proof -
    from that(2) obtain h where h: "header (windex s) = Some h"
      and b: "h_base h \<le> h_head h"
      by (auto simp: wal_ok_iff)
    have "idx_offset (windex s) (h_head h) = Inr (slot (ifile (windex s)) (h_base h) (h_head h))"
      using idx_offset_eq [OF h, of "h_head h"] b by simp
    then show ?thesis
      using that(1) h by (cases d) (auto simp add: wal_write_def ra_write_def idx_getters)
  qed
  show ?thesis
    using any [of Undefined] any [of "Str t"] any [of "Buffer []"]
      ok [of Undefined] ok [of "Str t"] by simp
qed

theorem write_requires_payload_witness:
  "wal_ok sample_wal
   \<and> wal_write sample_wal Undefined = (Inl (AssertionError ''data (Buffer) is required''), sample_wal)
   \<and> wal_write sample_wal (Str ''This is string data.'')
       = (Inl (AssertionError ''data (Buffer) is required''), sample_wal)
   \<and> (\<exists>e. wal_write sample_wal (Buffer []) = (Inl e, sample_wal))"
proof -
  have a1: "wal_ok sample_wal" by code_simp
  show ?thesis
    using a1 write_requires_payload [of sample_wal "''This is string data.''"] by simp
qed

section \<open>The index file and the log file stay consistent\<close>



lemma header_commit_update:
  assumes "length h = HLEN"
  shows "h_commit (writeInt32BE v OFS_COMMIT h) = wrap32 v"
    and "h_base (writeInt32BE v OFS_COMMIT h) = h_base h"
    and "h_head (writeInt32BE v OFS_COMMIT h) = h_head h"
  using assms
  by (simp_all add: h_head_def h_base_def h_commit_def consts_defs
      readInt32BE_write_same readInt32BE_write_other)

lemma wal_commit_ok:
  assumes "wal_ok s" and "header (windex s) = Some h" and "h_commit h < 2147483647"
    and "wal_commit s L = (r, s')"
  shows "wal_ok s'"
    and "length (ifile (windex s')) = length (ifile (windex s))"
    and "wal_next s' = wal_next s"
    and "idx_baseIndex (windex s') = idx_baseIndex (windex s)"
proof -
  let ?b = "h_base h" and ?H = "h_head h" and ?C = "h_commit h" and ?f = "ifile (windex s)"
  let ?h' = "writeInt32BE (?C + 1) 12 h"
  let ?f' = "overwrite ?f 12 (take 4 (drop 12 ?h'))"
  from assms(1,2) have len: "length h = HLEN" and b: "?b \<le> ?H" and c: "?b - 1 \<le> ?C"
    and fits: "int HLEN + (?H - ?b + 1) * int SIZEOF_INT \<le> int (length ?f)"
    and zero: "slot ?f ?b ?b = 0"
    and mono: "\<forall>L. ?b \<le> L \<and> L < ?H \<longrightarrow> slot ?f ?b L \<le> slot ?f ?b (L + 1)"
    and sz: "slot ?f ?b ?H = ra_size (wfile s)"
    by (auto simp: wal_ok_iff)
  have all: "wal_ok s' \<and> length (ifile (windex s')) = length (ifile (windex s))
       \<and> wal_next s' = wal_next s \<and> idx_baseIndex (windex s') = idx_baseIndex (windex s)"
  proof (cases "L = ?C + 1")
    case False
    then have "s' = s"
      using assms(4) idx_commit_old [OF assms(2), of L] idx_commit_later [OF assms(2), of L]
      by (cases "L < ?C + 1") (auto simp: wal_commit_def)
    with assms(1) show ?thesis by simp
  next
    case True
    then have s': "s' = s\<lparr>windex := \<lparr>ifile = ?f', header = Some ?h'\<rparr>\<rparr>"
      using assms(4) idx_commit_next [OF assms(2) len] by (simp add: wal_commit_def)
    have "- 2147483648 \<le> ?C"
      unfolding h_commit_def using readInt32BE_range by blast
    with assms(3) have w: "wrap32 (?C + 1) = ?C + 1"
      by (simp add: wrap32_id)
    have hd: "h_commit ?h' = ?C + 1" "h_base ?h' = ?b" "h_head ?h' = ?H"
      using header_commit_update [OF len, of "?C + 1"] w by (simp_all add: OFS_COMMIT_def)
    have sl: "slot ?f' ?b K = slot ?f ?b K" if "?b \<le> K" for K
      using that slot_persist_header [of ?b K 12 ?f ?h'] by simp
    have flen: "length ?f' = length ?f"
      using fits b by (simp add: consts_defs)
    have mono': "slot ?f' ?b K \<le> slot ?f' ?b (K + 1)" if "?b \<le> K \<and> K < ?H" for K
      using that sl [of K] sl [of "K + 1"] mono by simp
    have "wal_ok s'"
      unfolding wal_ok_iff s'
      using len hd b c fits flen zero sl [of ?b] sl [of ?H] mono' sz
      by simp
    then show ?thesis
      using flen hd assms(2) by (simp add: s' wal_next_def idx_getters)
  qed
  from all show "wal_ok s'" and "length (ifile (windex s')) = length (ifile (windex s))"
    and "wal_next s' = wal_next s" and "idx_baseIndex (windex s') = idx_baseIndex (windex s)"
    by simp_all
qed







section \<open>Writing and reading back\<close>

lemma wal_write_post:
  assumes "wal_ok s" and "header (windex s) = Some h"
    and "wal_write s (Buffer p) = (r, s')" and "p \<noteq> []"
  shows "r = Inr (h_head h)"
    and "wfile s' = wfile s @ p"
    and "header (windex s') = Some (writeInt32BE (h_head h + 1) OFS_HEAD h)"
    and "\<And>L. h_base h \<le> L \<Longrightarrow>
           slot (ifile (windex s')) (h_base h) L =
             (if L = h_head h + 1 then wrap32 (ra_size (wfile s) + int (length p))
              else slot (ifile (windex s)) (h_base h) L)"
proof -
  let ?b = "h_base h" and ?H = "h_head h" and ?f = "ifile (windex s)"
  let ?v = "ra_size (wfile s) + int (length p)"
  let ?h' = "writeInt32BE (?H + 1) OFS_HEAD h"
  let ?f1 = "overwrite ?f (slot_pos ?b (?H + 1)) (writeInt32BE ?v 0 (allocFill 4))"
  let ?f2 = "overwrite ?f1 8 (take 4 (drop 8 ?h'))"
  from assms(1,2) have b: "?b \<le> ?H"
    by (auto simp: wal_ok_iff)
  from assms(3) wal_write_eq [OF assms(1,2,4)]
  have s': "s' = \<lparr>wfile = wfile s @ p, windex = \<lparr>ifile = ?f2, header = Some ?h'\<rparr>\<rparr>"
    and r: "r = Inr ?H"
    by simp_all
  show "r = Inr ?H" by (rule r)
  show "wfile s' = wfile s @ p" by (simp add: s')
  show "header (windex s') = Some ?h'" by (simp add: s')
  show "slot (ifile (windex s')) ?b L = (if L = ?H + 1 then wrap32 ?v else slot ?f ?b L)"
    if "?b \<le> L" for L
    using that slot_persist_header [of ?b L 8 ?f1 ?h'] slot_write [of ?b L "?H + 1" ?f ?v] b
    by (simp add: s')
qed

lemma stored_fresh: "stored fresh_wal []"
proof -
  have "wal_ok fresh_wal" by code_simp
  moreover have "h_base [73, 68, 88, 36, 0, 0, 0, 0, 0, 0, 0, 0, 255, 255, 255, 255] = 0"
    "h_head [73, 68, 88, 36, 0, 0, 0, 0, 0, 0, 0, 0, 255, 255, 255, 255] = 0"
    "slot [73, 68, 88, 36, 0, 0, 0, 0, 0, 0, 0, 0, 255, 255, 255, 255, 0, 0, 0, 0] 0 0 = 0"
    by code_simp+
  ultimately show ?thesis
    by (simp add: stored_def fresh_wal_def)
qed

lemma stored_write:
  assumes "stored s qs"
    and "int (length qs) + 1 < 2147483648"
    and "int (length (concat (qs @ [p]))) < 2147483648"
    and "wal_write s (Buffer p) = (r, s')" and "p \<noteq> []"
  shows "r = Inr (int (length qs))" and "stored s' (qs @ [p])"
proof -
  from assms(1) obtain h where ok: "wal_ok s" and h: "header (windex s) = Some h"
    and b0: "h_base h = 0" and hd: "h_head h = int (length qs)"
    and sl: "\<forall>k \<le> length qs. slot (ifile (windex s)) 0 (int k) = int (length (concat (take k qs)))"
    and log: "wfile s = concat qs"
    by (auto simp: stored_def)
  note post = wal_write_post [OF ok h assms(4,5)]
  show "r = Inr (int (length qs))"
    using post(1) hd by simp
  let ?h' = "writeInt32BE (h_head h + 1) OFS_HEAD h"
  have len: "length h = HLEN" using ok h by (auto simp: wal_ok_iff)
  have bnd: "h_head h + 1 < 2147483648" using assms(2) hd by simp
  have sz: "ra_size (wfile s) + int (length p) = int (length (concat (qs @ [p])))"
    by (simp add: ra_size_def log)
  then have bnd2: "ra_size (wfile s) + int (length p) < 2147483648"
    using assms(3) by simp
  have ok': "wal_ok s'"
    using wal_write_ok [OF ok h bnd bnd2 assms(4,5)] .
  have "wrap32 (h_head h + 1) = h_head h + 1"
    using bnd hd by (simp add: wrap32_id)
  then have hd': "h_head ?h' = int (length (qs @ [p]))" "h_base ?h' = 0"
    using header_head_update [OF len, of "h_head h + 1"] hd b0 by simp_all
  have wv: "wrap32 (ra_size (wfile s) + int (length p)) = int (length (concat (qs @ [p])))"
    using bnd2 sz by (simp add: wrap32_id)
  have sl': "slot (ifile (windex s')) 0 (int k) = int (length (concat (take k (qs @ [p]))))"
    if "k \<le> length (qs @ [p])" for k
  proof (cases "k = length qs + 1")
    case True
    then show ?thesis
      using post(4) [of "int k"] b0 hd wv by simp
  next
    case False
    with that have "k \<le> length qs" by simp
    then show ?thesis
      using post(4) [of "int k"] b0 hd sl by simp
  qed
  show "stored s' (qs @ [p])"
    unfolding stored_def
    using ok' post(2,3) hd' sl' log by simp
qed

lemma write_all_stored:
  assumes "stored s qs"
    and "int (length (qs @ ps)) < 2147483648"
    and "int (length (concat (qs @ ps))) < 2147483648"
    and "[] \<notin> set ps"
  shows "\<exists>s'. write_all s ps = (Inr (map int [length qs ..< length qs + length ps]), s')
            \<and> stored s' (qs @ ps)"
  using assms
proof (induction ps arbitrary: s qs)
  case Nil
  then show ?case by simp
next
  case (Cons p ps)
  obtain r s1 where w: "wal_write s (Buffer p) = (r, s1)"
    by (cases "wal_write s (Buffer p)")
  have b1: "int (length qs) + 1 < 2147483648"
    using Cons.prems(2) by simp
  have b2: "int (length (concat (qs @ [p]))) < 2147483648"
    using Cons.prems(3) by simp
  have ne: "p \<noteq> []"
    using Cons.prems(4) by auto
  have r: "r = Inr (int (length qs))" and st: "stored s1 (qs @ [p])"
    using stored_write [OF Cons.prems(1) b1 b2 w ne] by simp_all
  have "\<exists>s'. write_all s1 ps
            = (Inr (map int [length (qs @ [p]) ..< length (qs @ [p]) + length ps]), s')
          \<and> stored s' ((qs @ [p]) @ ps)"
    using Cons.prems(2,3,4) by (intro Cons.IH [OF st]) auto
  then obtain s' where wa: "write_all s1 ps
            = (Inr (map int [Suc (length qs) ..< Suc (length qs) + length ps]), s')"
    and st': "stored s' (qs @ p # ps)"
    by auto
  have "[length qs ..< length qs + length (p # ps)]
          = length qs # [Suc (length qs) ..< Suc (length qs) + length ps]"
    by (subst upt_rec) simp
  then show ?case
    using w r wa st' by simp
qed

lemma concat_entry:
  assumes "i < length ps"
  shows "take (length (concat (take (Suc i) ps)) - length (concat (take i ps)))
           (drop (length (concat (take i ps))) (concat ps)) = ps ! i"
proof -
  have "ps = take i ps @ ps ! i # drop (Suc i) ps"
    using assms by (rule id_take_nth_drop)
  then have "concat ps = concat (take i ps) @ ps ! i @ concat (drop (Suc i) ps)"
    by (metis concat.simps(2) concat_append)
  moreover have "concat (take (Suc i) ps) = concat (take i ps) @ ps ! i"
    using assms by (simp add: take_Suc_conv_app_nth)
  ultimately show ?thesis by simp
qed

lemma stored_read:
  assumes "stored s ps" and "i < length ps"
  shows "wal_read s (int i) = Inr (ps ! i)"
proof -
  from assms(1) obtain h where ok: "wal_ok s" and h: "header (windex s) = Some h"
    and b0: "h_base h = 0" and hd: "h_head h = int (length ps)"
    and sl: "\<forall>k \<le> length ps. slot (ifile (windex s)) 0 (int k) = int (length (concat (take k ps)))"
    and log: "wfile s = concat ps"
    by (auto simp: stored_def)
  have s0: "slot (ifile (windex s)) 0 (int i) = int (length (concat (take i ps)))"
    using sl assms(2) by simp
  have s1: "slot (ifile (windex s)) 0 (int i + 1) = int (length (concat (take (Suc i) ps)))"
    using sl [rule_format, of "Suc i"] assms(2) by (simp add: add.commute)
  have "wal_read s (int i) =
     Inr (take (nat (slot (ifile (windex s)) (h_base h) (int i + 1)
                     - slot (ifile (windex s)) (h_base h) (int i)))
            (drop (nat (slot (ifile (windex s)) (h_base h) (int i))) (wfile s)))"
    using assms(2) b0 hd by (intro wal_read_eq [OF ok h]) simp_all
  also have "\<dots> = Inr (take (length (concat (take (Suc i) ps)) - length (concat (take i ps)))
           (drop (length (concat (take i ps))) (concat ps)))"
    unfolding b0 s0 s1 log by (simp add: nat_diff_distrib')
  finally show ?thesis
    using concat_entry [OF assms(2)] by simp
qed

lemma length_le_concat: "[] \<notin> set ps \<Longrightarrow> length ps \<le> length (concat ps)"
proof (induction ps)
  case Nil
  then show ?case by simp
next
  case (Cons p ps)
  then have "1 \<le> length p" "length ps \<le> length (concat ps)"
    by (auto simp: Suc_le_eq)
  then show ?case by simp
qed

text \<open>
  C1 (as amended). For non-empty payloads \<open>ps\<close> whose total length is below \<open>2 ^ 31\<close>
  bytes, the chained writes of \<open>ps\<close> to the log \<open>WriteAheadLog.create\<close> returns resolve
  with the LSNs 0, 1, ... in order, and \<open>read(i)\<close> afterwards resolves with \<open>ps ! i\<close> for every
  \<open>i\<close> below their number.
\<close>

theorem write_read_roundtrip:
  assumes "wal_create = Inr s0"
    and "[] \<notin> set ps"
    and "int (length (concat ps)) < 2147483648"
    and "i < length ps"
  shows "\<exists>s. write_all s0 ps = (Inr (map int [0 ..< length ps]), s)
           \<and> wal_read s (int i) = Inr (ps ! i)"
proof -
  have "s0 = fresh_wal"
    using assms(1) by (simp add: fresh_wal_created)
  then have "stored s0 []"
    using stored_fresh by simp
  moreover have "int (length ps) < 2147483648"
    using length_le_concat [OF assms(2)] assms(3) by simp
  ultimately obtain s where "write_all s0 ps = (Inr (map int [0 ..< length ps]), s)"
    and "stored s ps"
    using write_all_stored [of s0 "[]" ps] assms(2,3) by auto
  then show ?thesis
    using stored_read [OF _ assms(4)] by blast
qed

theorem write_read_roundtrip_witness:
  "\<exists>s. write_all fresh_wal [[1, 2, 3], [4, 5], [6], [7, 8, 9, 10]] = (Inr [0, 1, 2, 3], s)
       \<and> wal_read s 2 = Inr [6]"
  using write_read_roundtrip [OF fresh_wal_created, of "[[1, 2, 3], [4, 5], [6], [7, 8, 9, 10]]" 2]
  by (simp add: upt_rec)

text \<open>
  The claim as stated fails once the log file reaches \<open>2 ^ 31\<close> bytes: after two writes of
  \<open>2 ^ 30\<close> bytes each, the slot after the second entry holds \<open>-2147483648\<close>, the length
  \<open>get(1)\<close> computes is negative, and \<open>read(1)\<close> fails.
\<close>

theorem write_read_roundtrip_counterexample:
  "fst (write_all fresh_wal [replicate (2 ^ 30) 7, replicate (2 ^ 30) 7]) = Inr [0, 1]
   \<and> wal_read (snd (write_all fresh_wal [replicate (2 ^ 30) 7, replicate (2 ^ 30) 7])) 1
       = Inl (FileError ''offset and length must not be negative'')"
proof -
  let ?p = "replicate (2 ^ 30) (7 :: byte)"
  let ?h0 = "[73, 68, 88, 36, 0, 0, 0, 0, 0, 0, 0, 0, 255, 255, 255, 255] :: buffer"
  have st0: "stored fresh_wal []" by (rule stored_fresh)
  obtain r1 s1 where w1: "wal_write fresh_wal (Buffer ?p) = (r1, s1)"
    by (cases "wal_write fresh_wal (Buffer ?p)")
  have r1: "r1 = Inr 0" and st1: "stored s1 [?p]"
    using stored_write [OF st0 _ _ w1] by simp_all
  from st1 obtain h1 where ok1: "wal_ok s1" and h1: "header (windex s1) = Some h1"
    and b1: "h_base h1 = 0" and hd1: "h_head h1 = 1"
    and sl1: "\<forall>k \<le> 1. slot (ifile (windex s1)) 0 (int k) = int (length (concat (take k [?p])))"
    and log1: "wfile s1 = ?p"
    by (auto simp: stored_def)
  have len1: "length h1 = HLEN" using ok1 h1 by (auto simp: wal_ok_iff)
  obtain r2 s2 where w2: "wal_write s1 (Buffer ?p) = (r2, s2)"
    by (cases "wal_write s1 (Buffer ?p)")
  have ne: "?p \<noteq> []" by simp
  note post = wal_write_post [OF ok1 h1 w2 ne]
  let ?h2 = "writeInt32BE (h_head h1 + 1) OFS_HEAD h1"
  have r2: "r2 = Inr 1" using post(1) hd1 by simp
  have "wrap32 2 = 2" by (simp add: wrap32_id)
  then have hd2: "h_head ?h2 = 2" "h_base ?h2 = 0"
    using header_head_update [OF len1, of "h_head h1 + 1"] hd1 b1 by simp_all
  have o1: "slot (ifile (windex s2)) 0 1 = 1073741824"
    using post(4) [of 1] b1 hd1 sl1 [rule_format, of 1] by simp
  have "wrap32 2147483648 = - 2147483648"
    by (simp add: wrap32_def)
  then have o2: "slot (ifile (windex s2)) 0 2 = - 2147483648"
    using post(4) [of 2] b1 hd1 by (simp add: ra_size_def log1)
  have "idx_get (windex s2) 1 =
      Inr \<lparr>rec_offset = slot (ifile (windex s2)) (h_base ?h2) 1,
           rec_length = slot (ifile (windex s2)) (h_base ?h2) (1 + 1)
                        - slot (ifile (windex s2)) (h_base ?h2) 1\<rparr>"
    using hd2 by (intro idx_get_eq [OF post(3)]) simp_all
  then have "idx_get (windex s2) 1 = Inr \<lparr>rec_offset = 1073741824, rec_length = - 3221225472\<rparr>"
    using o1 o2 hd2 by simp
  then have rd: "wal_read s2 1 = Inl (FileError ''offset and length must not be negative'')"
    by (simp add: wal_read_def ra_read_def)
  have "write_all fresh_wal [?p, ?p] = (Inr [0, 1], s2)"
    using w1 r1 w2 r2 by simp
  with rd show ?thesis by simp
qed

section \<open>Range reads\<close>
























section \<open>Recovery with a handler that accepts every entry\<close>

lemma wal_commit_next_ok:
  assumes "wal_ok s" and "header (windex s) = Some h" and "h_commit h + 1 < h_head h"
  shows "\<exists>s' h'. wal_commit s (h_commit h + 1) = (Inr (h_commit h + 1), s')
           \<and> wal_ok s' \<and> header (windex s') = Some h'
           \<and> h_commit h' = h_commit h + 1 \<and> h_head h' = h_head h
           \<and> (\<forall>L. h_base h \<le> L \<and> L < h_head h \<longrightarrow> wal_read s' L = wal_read s L)"
proof -
  let ?C = "h_commit h"
  let ?h' = "writeInt32BE (?C + 1) 12 h"
  let ?f' = "overwrite (ifile (windex s)) 12 (take 4 (drop 12 ?h'))"
  let ?s' = "s\<lparr>windex := \<lparr>ifile = ?f', header = Some ?h'\<rparr>\<rparr>"
  from assms(1,2) have len: "length h = HLEN"
    by (auto simp: wal_ok_iff)
  have c: "wal_commit s (?C + 1) = (Inr (?C + 1), ?s')"
    using idx_commit_next [OF assms(2) len] by (simp add: wal_commit_def)
  have "h_head h < 2147483648" "- 2147483648 \<le> ?C"
    unfolding h_head_def h_commit_def using readInt32BE_range by blast+
  with assms(3) have lt: "?C < 2147483647" and w: "wrap32 (?C + 1) = ?C + 1"
    by (simp_all add: wrap32_id)
  have ok': "wal_ok ?s'"
    using wal_commit_ok(1) [OF assms(1,2) lt c] .
  have hd: "h_commit ?h' = ?C + 1" "h_base ?h' = h_base h" "h_head ?h' = h_head h"
    using header_commit_update [OF len, of "?C + 1"] w by (simp_all add: OFS_COMMIT_def)
  have h': "header (windex ?s') = Some ?h'" by simp
  have rd: "wal_read ?s' L = wal_read s L" if "h_base h \<le> L \<and> L < h_head h" for L
  proof -
    have sl: "slot ?f' (h_base h) K = slot (ifile (windex s)) (h_base h) K" if "h_base h \<le> K" for K
      using that slot_persist_header [of "h_base h" K 12 "ifile (windex s)" ?h'] by simp
    have "wal_read ?s' L =
       Inr (take (nat (slot (ifile (windex ?s')) (h_base ?h') (L + 1)
                     - slot (ifile (windex ?s')) (h_base ?h') L))
            (drop (nat (slot (ifile (windex ?s')) (h_base ?h') L)) (wfile ?s')))"
      using that hd by (intro wal_read_eq [OF ok' h']) simp_all
    moreover have "wal_read s L =
       Inr (take (nat (slot (ifile (windex s)) (h_base h) (L + 1)
                     - slot (ifile (windex s)) (h_base h) L))
            (drop (nat (slot (ifile (windex s)) (h_base h) L)) (wfile s)))"
      using that by (intro wal_read_eq [OF assms(1,2)]) simp_all
    ultimately show ?thesis
      using sl [of L] sl [of "L + 1"] that hd by simp
  qed
  show ?thesis
    using c ok' h' hd rd by blast
qed

lemma possiblyRecover_accept_all:
  assumes "n = nat (h_head h - index)"
    and "wal_ok s" and "header (windex s) = Some h"
    and "h_commit h + 1 = index" and "index < h_head h"
  shows "\<exists>s' calls.
           possiblyRecover (\<lambda>lsn entry. True) (h_head h) s index
             = (Inl (AssertionError ''index out of range''), s', calls)
         \<and> wal_commitHead s' = Inr (h_head h - 1)
         \<and> wal_next s' = Inr (h_head h)
         \<and> map fst calls = [index .. h_head h - 1]
         \<and> (\<forall>c \<in> set calls. wal_read s (fst c) = Inr (snd c))"
  using assms
proof (induction n arbitrary: s h index)
  case 0
  then show ?case by simp
next
  case (Suc n)
  let ?H = "h_head h"
  from Suc.prems(2,3) have base: "h_base h - 1 \<le> h_commit h"
    by (auto simp: wal_ok_iff)
  with Suc.prems(4) have bi: "h_base h \<le> index" by simp
  obtain data where rd: "wal_read s index = Inr data"
    using wal_read_eq [OF Suc.prems(2,3) bi Suc.prems(5)] by simp
  have lt: "h_commit h + 1 < ?H" using Suc.prems(4,5) by simp
  from wal_commit_next_ok [OF Suc.prems(2,3) lt] Suc.prems(4)
  obtain s1 h1 where c: "wal_commit s index = (Inr index, s1)"
    and ok1: "wal_ok s1" and h1: "header (windex s1) = Some h1"
    and c1: "h_commit h1 = index" and hd1: "h_head h1 = ?H"
    and rd1: "\<forall>L. h_base h \<le> L \<and> L < ?H \<longrightarrow> wal_read s1 L = wal_read s L"
    by auto
  show ?case
  proof (cases "index + 1 < ?H")
    case True
    have n: "n = nat (h_head h1 - (index + 1))"
      using Suc.prems(1) hd1 by simp
    from Suc.IH [OF n ok1 h1] c1 True hd1
    obtain s' calls where
      pr: "possiblyRecover (\<lambda>lsn entry. True) ?H s1 (index + 1)
             = (Inl (AssertionError ''index out of range''), s', calls)"
      and post: "wal_commitHead s' = Inr (?H - 1)" "wal_next s' = Inr ?H"
      and lsns: "map fst calls = [index + 1 .. ?H - 1]"
      and reads: "\<forall>c \<in> set calls. wal_read s1 (fst c) = Inr (snd c)"
      by auto
    have step: "possiblyRecover (\<lambda>lsn entry. True) ?H s index
             = (Inl (AssertionError ''index out of range''), s', (index, data) # calls)"
      using rd c True pr by (subst possiblyRecover.simps) simp
    have "[index .. ?H - 1] = index # [index + 1 .. ?H - 1]"
      using True by (simp add: upto_rec1)
    then have lsns': "map fst ((index, data) # calls) = [index .. ?H - 1]"
      using lsns by simp
    have "wal_read s (fst c) = Inr (snd c)" if "c \<in> set calls" for c
    proof -
      from that lsns have "fst c \<in> set [index + 1 .. ?H - 1]"
        by (metis image_eqI set_map)
      then have "h_base h \<le> fst c \<and> fst c < ?H" using bi by simp
      with rd1 have "wal_read s1 (fst c) = wal_read s (fst c)" by blast
      with reads that show ?thesis by auto
    qed
    then have reads': "\<forall>c \<in> set ((index, data) # calls). wal_read s (fst c) = Inr (snd c)"
      using rd by simp
    show ?thesis
      using step post lsns' reads' by blast
  next
    case False
    with Suc.prems(5) have last: "index = ?H - 1" by simp
    have ch: "wal_commitHead s1 = Inr index" and nx: "wal_next s1 = Inr ?H"
      using h1 c1 hd1 by (simp_all add: wal_commitHead_def wal_next_def idx_getters)
    have "wal_truncate s1 (index + 1) = (Inl (AssertionError ''index out of range''), s1)"
      using wal_truncate_refused [OF ch nx, of "index + 1"] False by simp
    then have "truncAfterCommitHead s1 = (Inl (AssertionError ''index out of range''), s1)"
      using ch by (simp add: truncAfterCommitHead_def)
    then have step: "possiblyRecover (\<lambda>lsn entry. True) ?H s index
             = (Inl (AssertionError ''index out of range''), s1, [(index, data)])"
      using rd c False by (subst possiblyRecover.simps) simp
    have "[index .. ?H - 1] = [index]"
      using last by simp
    then show ?thesis
      using step ch nx rd last by simp
  qed
qed

lemma recover_accept_all_always_fails:
  assumes "wal_ok s" and "wal_commitHead s = Inr C" and "wal_next s = Inr H"
    and "C + 1 < H"
  shows "\<exists>s' calls.
           wal_recover s (HFunction (\<lambda>lsn entry. True))
             = (Inl (AssertionError ''index out of range''), s', calls)
         \<and> wal_commitHead s' = Inr (H - 1)
         \<and> wal_next s' = Inr H
         \<and> map fst calls = [C + 1 .. H - 1]
         \<and> (\<forall>c \<in> set calls. wal_read s (fst c) = Inr (snd c))"
proof -
  from assms(1) obtain h where h: "header (windex s) = Some h"
    by (auto simp: wal_ok_iff)
  with assms(2,3) have C: "C = h_commit h" and H: "H = h_head h"
    by (simp_all add: wal_commitHead_def wal_next_def idx_getters)
  have "wal_recover s (HFunction (\<lambda>lsn entry. True))
          = possiblyRecover (\<lambda>lsn entry. True) H s (C + 1)"
    using assms(2,3,4) by (simp add: wal_recover_def)
  then show ?thesis
    using possiblyRecover_accept_all [OF refl assms(1) h, of "C + 1"] assms(4) C H by simp
qed

text \<open>
  C4. With four entries written and the first two committed (scenario S7), a handler that
  accepts every entry is called for LSN 2 and LSN 3 with their payloads and both are
  committed, but \<open>recover\<close> does not complete: the closing \<open>truncate(commitHead + 1)\<close> is
  \<open>truncate(4)\<close> with the write head at 4, and fails the assertion \<open>index out of range\<close>.
  By \<open>recover_accept_all_always_fails\<close> the same happens in every well-formed log with
  uncommitted entries.
\<close>

theorem recover_accept_all_fails:
  "fst (wal_recover sample_wal (HFunction (\<lambda>lsn entry. True)))
     = Inl (AssertionError ''index out of range'')
   \<and> wal_commitHead (fst (snd (wal_recover sample_wal (HFunction (\<lambda>lsn entry. True))))) = Inr 3
   \<and> wal_next (fst (snd (wal_recover sample_wal (HFunction (\<lambda>lsn entry. True))))) = Inr 4
   \<and> snd (snd (wal_recover sample_wal (HFunction (\<lambda>lsn entry. True))))
     = [(2, [6]), (3, [7, 8, 9, 10])]"
  by code_simp

end
